theory Spec2Isabelle
  imports Main "HOL-Library.FSet"
begin

section \<open>Strings and word extraction\<close>

text \<open>
  The crawler is Python: its strings are sequences of code points. They are modelled as
  \<^typ>\<open>string\<close>, the character with code \<open>n\<close> standing for the code point \<open>n\<close>, so the
  model covers texts and locators whose code points lie below 256. A Python \<open>set\<close> is a
  finite set (\<^typ>\<open>'a fset\<close>); where the program iterates over a set, the model iterates
  over a list of its elements.
\<close>

text \<open>\<open>WORD_PATTERN = re.compile(r'[a-z]+')\<close>: the character class is a range of code points.\<close>

definition is_lower_az :: "char \<Rightarrow> bool" where
  "is_lower_az c \<longleftrightarrow> 97 \<le> (of_char c :: nat) \<and> (of_char c :: nat) \<le> 122"

text \<open>
  \<open>str.lower\<close> on one code point below 256: the ASCII capitals and the Latin-1 capitals
  (\<open>0xC0\<close> to \<open>0xDE\<close>, the multiplication sign \<open>0xD7\<close> apart) move up by 32; every other
  code point is its own lower-case form.
\<close>

definition lower_char :: "char \<Rightarrow> char" where
  "lower_char c =
     (let n = (of_char c :: nat)
      in if (65 \<le> n \<and> n \<le> 90) \<or> (192 \<le> n \<and> n \<le> 222 \<and> n \<noteq> 215)
         then char_of (n + 32) else c)"

definition lower :: "string \<Rightarrow> string" where
  "lower text = map lower_char text"

text \<open>
  \<open>WORD_PATTERN.findall\<close>: the matches of \<open>[a-z]+\<close> from left to right. The scan keeps the
  match it is reading in \<open>cur\<close>; a character outside the class ends the match.
\<close>

fun scan_words :: "string \<Rightarrow> string \<Rightarrow> string list" where
  "scan_words cur [] = (if cur = [] then [] else [cur])"
| "scan_words cur (c # cs) =
     (if is_lower_az c then scan_words (cur @ [c]) cs
      else if cur = [] then scan_words [] cs
      else cur # scan_words [] cs)"

definition WORD_PATTERN_findall :: "string \<Rightarrow> string list" where
  "WORD_PATTERN_findall text = scan_words [] text"

text \<open>\<open>extract_words(text)\<close> is \<open>set(WORD_PATTERN.findall(text.lower()))\<close>.\<close>

definition extract_words :: "string \<Rightarrow> string fset" where
  "extract_words text = fset_of_list (WORD_PATTERN_findall (lower text))"

section \<open>Address normalization\<close>

text \<open>
  \<open>normalize_url\<close> rebuilds a locator from four of the six fields of
  \<open>urllib.parse.urlparse\<close>. The parser belongs to the Python library; it is modelled after
  the library (CPython 3.11): \<open>urlsplit\<close>, \<open>_splitnetloc\<close>, \<open>_check_bracketed_host\<close>,
  \<open>_splitparams\<close> and \<open>urlparse\<close>, and the address parsers of \<open>ipaddress\<close> that the check
  of a bracketed host calls. Where the library raises \<open>ValueError\<close> the model returns it.
\<close>

text \<open>
  The exceptions of the crawler: \<open>ValueError\<close> from the URL parser and from
  \<open>asyncio.Semaphore\<close>, and the classes of exception that the body of \<open>crawl_url\<close> can
  raise: an error of the HTTP client's transport, its \<open>HTTPStatusError\<close>, and an exception
  of the HTML parser.
\<close>

datatype error = ValueError | TransportError | HTTPStatusError | ParserError

record parse_result =
  scheme :: string
  netloc :: string
  path :: string
  params :: string
  query :: string
  fragment :: string

text \<open>The character sets of the parser: \<open>_WHATWG_C0_CONTROL_OR_SPACE\<close>,
  \<open>_UNSAFE_URL_BYTES_TO_REMOVE\<close>, the ASCII letters, \<open>scheme_chars\<close> and \<open>uses_params\<close>.\<close>

definition is_c0_control_or_space :: "char \<Rightarrow> bool" where
  "is_c0_control_or_space c \<longleftrightarrow> (of_char c :: nat) \<le> 32"

definition is_unsafe_url_byte :: "char \<Rightarrow> bool" where
  "is_unsafe_url_byte c \<longleftrightarrow> (of_char c :: nat) \<in> {9, 13, 10}"

definition is_ascii_alpha :: "char \<Rightarrow> bool" where
  "is_ascii_alpha c \<longleftrightarrow>
     (let n = (of_char c :: nat) in (65 \<le> n \<and> n \<le> 90) \<or> (97 \<le> n \<and> n \<le> 122))"

definition is_scheme_char :: "char \<Rightarrow> bool" where
  "is_scheme_char c \<longleftrightarrow>
     (let n = (of_char c :: nat)
      in is_ascii_alpha c \<or> (48 \<le> n \<and> n \<le> 57) \<or> n = 43 \<or> n = 45 \<or> n = 46)"

definition uses_params :: "string list" where
  "uses_params = ['''', ''ftp'', ''hdl'', ''prospero'', ''http'', ''imap'', ''https'',
     ''shttp'', ''rtsp'', ''rtsps'', ''rtspu'', ''sip'', ''sips'', ''mms'', ''sftp'', ''tel'']"

text \<open>\<open>url.lstrip(_WHATWG_C0_CONTROL_OR_SPACE)\<close>, then the removal of tab, CR and LF.\<close>

definition sanitize :: "string \<Rightarrow> string" where
  "sanitize url = filter (\<lambda>c. \<not> is_unsafe_url_byte c) (dropWhile is_c0_control_or_space url)"

text \<open>
  The scheme: \<open>i = url.find(':')\<close>; when \<open>i > 0\<close>, the first character is an ASCII letter
  and every character before the colon is in \<open>scheme_chars\<close>, the scheme is
  \<open>url[:i].lower()\<close> and the rest is \<open>url[i+1:]\<close>.
\<close>

definition split_scheme :: "string \<Rightarrow> string \<times> string" where
  "split_scheme url =
     (let pre = takeWhile (\<lambda>c. c \<noteq> CHR '':'') url
      in if CHR '':'' \<in> set url \<and> pre \<noteq> [] \<and> is_ascii_alpha (hd url)
            \<and> list_all is_scheme_char pre
         then (lower pre, drop (length pre + 1) url)
         else ([], url))"

text \<open>\<open>_splitnetloc(url, 2)\<close>: the network location runs from index 2 to the first of
  \<open>/\<close>, \<open>?\<close> and \<open>#\<close>.\<close>

definition is_netloc_delim :: "char \<Rightarrow> bool" where
  "is_netloc_delim c \<longleftrightarrow> c = CHR ''/'' \<or> c = CHR ''?'' \<or> c = CHR ''#''"

definition splitnetloc :: "string \<Rightarrow> string \<times> string" where
  "splitnetloc url =
     (let rest = drop 2 url
      in (takeWhile (\<lambda>c. \<not> is_netloc_delim c) rest, dropWhile (\<lambda>c. \<not> is_netloc_delim c) rest))"

text \<open>\<open>s.split(d, 1)\<close> for a string that holds the separator \<open>d\<close>.\<close>

definition split_once :: "char \<Rightarrow> string \<Rightarrow> string \<times> string" where
  "split_once d s = (takeWhile (\<lambda>c. c \<noteq> d) s, drop 1 (dropWhile (\<lambda>c. c \<noteq> d) s))"

text \<open>\<open>s.split(sep)\<close> for a separator of one character.\<close>

fun split_on :: "char \<Rightarrow> string \<Rightarrow> string list" where
  "split_on sep [] = [[]]"
| "split_on sep (c # cs) =
     (if c = sep then [] # split_on sep cs
      else (case split_on sep cs of [] \<Rightarrow> [[c]] | p # ps \<Rightarrow> (c # p) # ps))"

text \<open>
  \<open>ipaddress.IPv4Address\<close> on a string: four octets separated by dots, each a decimal
  number of at most three ASCII digits, without a leading zero, not above 255. The
  predicates hold where the library's functions return and fail where they raise.
\<close>

definition is_ascii_digit :: "char \<Rightarrow> bool" where
  "is_ascii_digit c \<longleftrightarrow> 48 \<le> (of_char c :: nat) \<and> (of_char c :: nat) \<le> 57"

definition octet_int :: "string \<Rightarrow> nat" where
  "octet_int octet_str = foldl (\<lambda>v c. v * 10 + ((of_char c :: nat) - 48)) 0 octet_str"

definition parse_octet_ok :: "string \<Rightarrow> bool" where
  "parse_octet_ok octet_str \<longleftrightarrow>
     octet_str \<noteq> [] \<and> list_all is_ascii_digit octet_str \<and> length octet_str \<le> 3 \<and>
     \<not> (octet_str \<noteq> ''0'' \<and> hd octet_str = CHR ''0'') \<and> octet_int octet_str \<le> 255"

definition ipv4_ok :: "string \<Rightarrow> bool" where
  "ipv4_ok addr_str \<longleftrightarrow>
     CHR ''/'' \<notin> set addr_str \<and> addr_str \<noteq> [] \<and>
     length (split_on CHR ''.'' addr_str) = 4 \<and>
     list_all parse_octet_ok (split_on CHR ''.'' addr_str)"

text \<open>
  \<open>ipaddress.IPv6Address\<close> on a string. \<open>_parse_hextet\<close> accepts one to four hexadecimal
  digits. \<open>_split_scope_id\<close> cuts a scope off at the first \<open>%\<close> and raises on an empty
  scope and on a second \<open>%\<close>. \<open>_ip_int_from_string\<close> splits at the colons, replaces a
  dotted last part that is an IPv4 address by two hextets, and accepts eight hextets, or
  fewer around one \<open>::\<close>. Of the two hextets that replace the IPv4 address only their
  being hextets matters here; the model writes \<open>0\<close> for both.
\<close>

definition is_hex_digit :: "char \<Rightarrow> bool" where
  "is_hex_digit c \<longleftrightarrow>
     (let n = (of_char c :: nat)
      in (48 \<le> n \<and> n \<le> 57) \<or> (65 \<le> n \<and> n \<le> 70) \<or> (97 \<le> n \<and> n \<le> 102))"

definition parse_hextet_ok :: "string \<Rightarrow> bool" where
  "parse_hextet_ok hextet_str \<longleftrightarrow>
     list_all is_hex_digit hextet_str \<and> length hextet_str \<le> 4 \<and> hextet_str \<noteq> []"

definition split_scope_id :: "string \<Rightarrow> string option" where
  "split_scope_id ip_str =
     (if CHR ''%'' \<in> set ip_str then
        (let scope_id = drop 1 (dropWhile (\<lambda>c. c \<noteq> CHR ''%'') ip_str)
         in if scope_id = [] \<or> CHR ''%'' \<in> set scope_id then None
            else Some (takeWhile (\<lambda>c. c \<noteq> CHR ''%'') ip_str))
      else Some ip_str)"

definition hextets_ok :: "string list \<Rightarrow> bool" where
  "hextets_ok parts =
     (if length parts > 9 then False
      else
        (let skips = filter (\<lambda>i. parts ! i = []) [1 ..< length parts - 1]
         in if length skips > 1 then False
            else if skips \<noteq> [] then
              (let skip_index = hd skips;
                   parts_hi = (if hd parts = [] then skip_index - 1 else skip_index);
                   parts_lo = (if last parts = [] then length parts - skip_index - 1 - 1
                               else length parts - skip_index - 1)
               in if hd parts = [] \<and> parts_hi \<noteq> 0 then False
                  else if last parts = [] \<and> parts_lo \<noteq> 0 then False
                  else if 8 < parts_hi + parts_lo + 1 then False
                  else list_all parse_hextet_ok
                         (take parts_hi parts @ drop (length parts - parts_lo) parts))
            else if length parts \<noteq> 8 then False
            else if hd parts = [] \<or> last parts = [] then False
            else list_all parse_hextet_ok parts))"

definition ipv6_ok :: "string \<Rightarrow> bool" where
  "ipv6_ok addr_str =
     (if CHR ''/'' \<in> set addr_str then False
      else
        (case split_scope_id addr_str of
           None \<Rightarrow> False
         | Some ip_str \<Rightarrow>
             if ip_str = [] then False
             else
               (let parts = split_on CHR '':'' ip_str
                in if length parts < 3 then False
                   else if CHR ''.'' \<in> set (last parts) then
                     (if \<not> ipv4_ok (last parts) then False
                      else hextets_ok (butlast parts @ [''0'', ''0'']))
                   else hextets_ok parts)))"

text \<open>
  \<open>_check_bracketed_host\<close>: a host that starts with \<open>v\<close> must match
  \<open>v[a-fA-F0-9]+\..+\<close> from start to end, where the dot of the pattern is any character
  but a line feed; any other host must be an IPv6 address, an IPv4 address being refused.
\<close>

definition ipvfuture_ok :: "string \<Rightarrow> bool" where
  "ipvfuture_ok hostname \<longleftrightarrow>
     (let rest = drop 1 hostname;
          digits = takeWhile is_hex_digit rest;
          tail = drop (length digits) rest
      in digits \<noteq> [] \<and> take 1 tail = ''.'' \<and> drop 1 tail \<noteq> [] \<and>
         CHR 0x0A \<notin> set (drop 1 tail))"

definition check_bracketed_host :: "string \<Rightarrow> bool" where
  "check_bracketed_host hostname =
     (if take 1 hostname = ''v'' then ipvfuture_ok hostname
      else if ipv4_ok hostname then False
      else ipv6_ok hostname)"

text \<open>
  The validation of the network location in \<open>urlsplit\<close>: one square bracket without the
  other raises, and with both the host \<open>netloc.partition('[')[2].partition(']')[0]\<close> is
  checked. \<open>_checknetloc\<close>, called at the end of \<open>urlsplit\<close>, raises when the NFKC form of
  a network location that is not ASCII holds one of \<open>/?#@:\<close>; the NFKC form of no code
  point below 256 holds one, so it does not raise on the strings of this model.
\<close>

definition netloc_ok :: "string \<Rightarrow> bool" where
  "netloc_ok loc =
     (if (CHR ''['' \<in> set loc \<and> CHR '']'' \<notin> set loc) \<or>
         (CHR '']'' \<in> set loc \<and> CHR ''['' \<notin> set loc) then False
      else if CHR ''['' \<in> set loc \<and> CHR '']'' \<in> set loc then
        check_bracketed_host
          (takeWhile (\<lambda>c. c \<noteq> CHR '']'') (drop 1 (dropWhile (\<lambda>c. c \<noteq> CHR ''['') loc)))
      else True)"

text \<open>
  \<open>urlsplit\<close>: the scheme, then the network location with its validation, then the
  fragment and the query, which \<open>split_tail\<close> cuts off what is left.
\<close>

definition split_tail ::
  "string \<Rightarrow> string \<Rightarrow> string \<Rightarrow> string \<times> string \<times> string \<times> string \<times> string" where
  "split_tail sch loc url =
     (let (url, fragment) = (if CHR ''#'' \<in> set url then split_once CHR ''#'' url else (url, []));
          (url, query) = (if CHR ''?'' \<in> set url then split_once CHR ''?'' url else (url, []))
      in (sch, loc, url, query, fragment))"

definition urlsplit ::
  "string \<Rightarrow> error + (string \<times> string \<times> string \<times> string \<times> string)" where
  "urlsplit raw =
     (let url = sanitize raw;
          (scheme, url) = split_scheme url
      in if take 2 url = ''//'' then
           (let (netloc, url) = splitnetloc url
            in if \<not> netloc_ok netloc then Inl ValueError
               else Inr (split_tail scheme netloc url))
         else Inr (split_tail scheme [] url))"

text \<open>\<open>_splitparams\<close>: the parameters start at the first semicolon of the last path
  segment; \<open>rfind_slash\<close> is \<open>url.rfind('/')\<close> for a string that holds a slash.\<close>

definition rfind_slash :: "string \<Rightarrow> nat" where
  "rfind_slash url = length url - 1 - length (takeWhile (\<lambda>c. c \<noteq> CHR ''/'') (rev url))"

definition splitparams :: "string \<Rightarrow> string \<times> string" where
  "splitparams url =
     (if CHR ''/'' \<in> set url then
        (let k = rfind_slash url; tail = drop k url
         in if CHR '';'' \<in> set tail
            then (let i = k + length (takeWhile (\<lambda>c. c \<noteq> CHR '';'') tail)
                  in (take i url, drop (i + 1) url))
            else (url, []))
      else (let i = length (takeWhile (\<lambda>c. c \<noteq> CHR '';'') url)
            in (take i url, drop (i + 1) url)))"

definition urlparse :: "string \<Rightarrow> error + parse_result" where
  "urlparse raw =
     (case urlsplit raw of
        Inl e \<Rightarrow> Inl e
      | Inr (sch, loc, url, qry, frag) \<Rightarrow>
          (let (url, prm) = (if sch \<in> set uses_params \<and> CHR '';'' \<in> set url
                             then splitparams url else (url, []))
           in Inr \<lparr>scheme = sch, netloc = loc, path = url, params = prm,
                   query = qry, fragment = frag\<rparr>))"

text \<open>The function of the crawler itself. It raises where \<open>urlparse\<close> raises.\<close>

definition normalize_url :: "string \<Rightarrow> error + string" where
  "normalize_url url =
     (case urlparse url of
        Inl e \<Rightarrow> Inl e
      | Inr parsed \<Rightarrow>
          Inr (scheme parsed @ ''://'' @ netloc parsed @ path parsed
               @ (if query parsed \<noteq> [] then ''?'' @ query parsed else [])))"

section \<open>The crawl engine\<close>

subsection \<open>Fetching one page\<close>

text \<open>
  The network and the HTML parser are the environment of the crawler. A request either
  makes \<open>client.get\<close> raise (timeout, refused connection, DNS or protocol error), or
  produces a response with a status code, a \<open>content-type\<close> header (empty when the header
  is absent) and a body. Of the body the model keeps what \<open>crawl_url\<close> reads from the
  parsed document: the visible text that \<open>get_text\<close> returns once the \<open>script\<close>, \<open>style\<close>,
  \<open>nav\<close>, \<open>footer\<close> and \<open>header\<close> elements are removed, and the targets of the anchors
  that remain, after \<open>urljoin\<close> against the page's address, in document order.
  \<open>Unparsable\<close> is a body on which the parser, the extraction of the text or \<open>urljoin\<close>
  raises.
\<close>

type_synonym address = string

datatype page = Unparsable | Parsed (visible_text: string) (resolved_hrefs: "string list")

datatype outcome = Get_Raises | Response (status_code: int) (content_type: string) (body: page)

text \<open>
  What \<open>asyncio.gather(*tasks, return_exceptions=True)\<close> holds for one task: the tuple
  \<open>(url, words, links)\<close> that the task returned, or the exception object of a task that
  raised. The link set is kept as the list of its elements in the order in which the
  orchestrator iterates over it.
\<close>

datatype gathered = is_tuple: Tuple address "string fset" "address list" | Exception_Object

text \<open>The \<open>k\<close>-th request of a crawl, sent to an address, has an outcome.\<close>

type_synonym network = "nat \<Rightarrow> address \<Rightarrow> outcome"

text \<open>\<open>sub in s\<close> on strings.\<close>

fun contains :: "string \<Rightarrow> string \<Rightarrow> bool" where
  "contains sub [] = (sub = [])"
| "contains sub (c # cs) = (take (length sub) (c # cs) = sub \<or> contains sub cs)"

text \<open>\<open>response.raise_for_status()\<close> raises unless the status code is a 2xx code.\<close>

definition is_success :: "int \<Rightarrow> bool" where
  "is_success status \<longleftrightarrow> 200 \<le> status \<and> status \<le> 299"

text \<open>
  \<open>extract_links\<close>: every anchor target is normalized and added to a set; the first target
  on which \<open>normalize_url\<close> raises ends the function with that error. The list holds each
  element of the set once.
\<close>

fun extract_links :: "string list \<Rightarrow> error + address list" where
  "extract_links [] = Inr []"
| "extract_links (href # hrefs) =
     (case normalize_url href of
        Inl e \<Rightarrow> Inl e
      | Inr normalized \<Rightarrow>
          (case extract_links hrefs of
             Inl e \<Rightarrow> Inl e
           | Inr links \<Rightarrow> Inr (List.insert normalized links)))"

text \<open>
  The body of the \<open>try\<close> statement of \<open>crawl_url\<close>. It raises when \<open>client.get\<close> raises,
  when \<open>raise_for_status\<close> raises, when the body cannot be parsed and when a link cannot be
  normalized; it returns the tuple with two empty sets for a response that is not HTML.
\<close>

fun crawl_body :: "address \<Rightarrow> outcome \<Rightarrow> error + (address \<times> string fset \<times> address list)" where
  "crawl_body url Get_Raises = Inl TransportError"
| "crawl_body url (Response status ctype content) =
     (if \<not> is_success status then Inl HTTPStatusError
      else if \<not> contains ''text/html'' ctype then Inr (url, {||}, [])
      else (case content of
              Unparsable \<Rightarrow> Inl ParserError
            | Parsed text hrefs \<Rightarrow>
                (case extract_links hrefs of
                   Inl e \<Rightarrow> Inl e
                 | Inr links \<Rightarrow> Inr (url, extract_words text, links))))"

text \<open>
  \<open>crawl_url\<close>. The semaphore only delays the body and is not part of the result. The
  handler \<open>except Exception\<close> turns every error of the body into the tuple with two empty
  sets.
\<close>

definition crawl_url :: "address \<Rightarrow> outcome \<Rightarrow> error + (address \<times> string fset \<times> address list)" where
  "crawl_url url out =
     (case crawl_body url out of
        Inl e \<Rightarrow> Inr (url, {||}, [])
      | Inr result \<Rightarrow> Inr result)"

text \<open>
  What \<open>gather\<close> with \<open>return_exceptions=True\<close> holds for a task: the value the task
  returned, or the exception object when it raised.
\<close>

fun task_result :: "error + (address \<times> string fset \<times> address list) \<Rightarrow> gathered" where
  "task_result (Inr (url, words, links)) = Tuple url words links"
| "task_result (Inl e) = Exception_Object"

subsection \<open>The orchestrator\<close>

text \<open>
  The variables of \<open>crawl_async\<close>. The field \<open>dispatched\<close> is not a variable of the
  program: it records the addresses handed to \<open>crawl_url\<close> so far, in order. Its length
  numbers the requests, and the claims about the whole crawl are stated on it.
\<close>

record crawl_state =
  visited :: "address fset"
  queue :: "(address \<times> int) list"
  all_words :: "string fset"
  pages_crawled :: int
  dispatched :: "address list"

text \<open>
  The inner loop \<open>while queue and len(urls_to_crawl) < workers * 2\<close>: the head of the queue
  is popped; it is dropped when its depth exceeds \<open>max_depth\<close> and appended to the batch
  otherwise. The result is the batch and the queue that remains.
\<close>

fun dequeue_batch ::
  "int \<Rightarrow> int \<Rightarrow> (address \<times> int) list \<Rightarrow> (address \<times> int) list
     \<Rightarrow> (address \<times> int) list \<times> (address \<times> int) list" where
  "dequeue_batch max_depth cap [] urls_to_crawl = (urls_to_crawl, [])"
| "dequeue_batch max_depth cap ((url, depth) # rest) urls_to_crawl =
     (if int (length urls_to_crawl) < cap then
        (if depth > max_depth then dequeue_batch max_depth cap rest urls_to_crawl
         else dequeue_batch max_depth cap rest (urls_to_crawl @ [(url, depth)]))
      else (urls_to_crawl, (url, depth) # rest))"

text \<open>One task per entry of the batch; \<open>gather\<close> returns the results in the order of the tasks.\<close>

fun gather :: "network \<Rightarrow> nat \<Rightarrow> (address \<times> int) list \<Rightarrow> gathered list" where
  "gather net k [] = []"
| "gather net k ((url, depth) # rest) =
     task_result (crawl_url url (net k url)) # gather net (Suc k) rest"

text \<open>The body of \<open>for link in links\<close>.\<close>

definition add_link :: "int \<Rightarrow> address \<Rightarrow> crawl_state \<Rightarrow> crawl_state" where
  "add_link max_pages link s =
     (if link |\<notin>| visited s \<and> int (fcard (visited s)) < max_pages
      then s\<lparr>visited := finsert link (visited s), queue := queue s @ [(link, 0)]\<rparr>
      else s)"

definition merge_links :: "int \<Rightarrow> address list \<Rightarrow> crawl_state \<Rightarrow> crawl_state" where
  "merge_links max_pages links s = fold (add_link max_pages) links s"

text \<open>\<open>pages_crawled += 1\<close> and \<open>all_words.update(words)\<close>.\<close>

definition count_page :: "string fset \<Rightarrow> crawl_state \<Rightarrow> crawl_state" where
  "count_page words s = s\<lparr>pages_crawled := pages_crawled s + 1, all_words := all_words s |\<union>| words\<rparr>"

text \<open>The body of \<open>for result in results\<close>, with its test \<open>isinstance(result, tuple)\<close>.\<close>

fun merge_result :: "int \<Rightarrow> gathered \<Rightarrow> crawl_state \<Rightarrow> crawl_state" where
  "merge_result max_pages (Tuple crawled_url words links) s =
     merge_links max_pages links (count_page words s)"
| "merge_result max_pages Exception_Object s = s"

definition merge_results :: "int \<Rightarrow> gathered list \<Rightarrow> crawl_state \<Rightarrow> crawl_state" where
  "merge_results max_pages results s = fold (merge_result max_pages) results s"

text \<open>The state once a batch has been taken off the queue.\<close>

definition dispatch ::
  "(address \<times> int) list \<Rightarrow> (address \<times> int) list \<Rightarrow> crawl_state \<Rightarrow> crawl_state" where
  "dispatch batch rest s = s\<lparr>queue := rest, dispatched := dispatched s @ map fst batch\<rparr>"

text \<open>
  The state before the loop, for the address \<open>seed\<close> that \<open>normalize_url(start_url)\<close>
  returned: the seed is in the queue at depth 0 and visited.
\<close>

definition initial_state :: "address \<Rightarrow> crawl_state" where
  "initial_state seed =
     \<lparr>visited = {|seed|}, queue = [(seed, 0)],
      all_words = {||}, pages_crawled = 0, dispatched = []\<rparr>"

text \<open>
  The outer loop terminates: a link that is added uses up one place of the page budget,
  so the free places of the budget plus the length of the queue do not grow while results
  are merged, and a batch that is not empty shortens the queue.
\<close>

lemma add_link_measure:
  "nat max_pages - fcard (visited (add_link max_pages l s)) + length (queue (add_link max_pages l s))
   = nat max_pages - fcard (visited s) + length (queue s)"
  by (auto simp: add_link_def fcard_finsert_disjoint)

lemma merge_links_measure:
  "nat max_pages - fcard (visited (merge_links max_pages ls s)) + length (queue (merge_links max_pages ls s))
   = nat max_pages - fcard (visited s) + length (queue s)"
  unfolding merge_links_def
  by (induction ls arbitrary: s) (simp_all add: add_link_measure)

lemma merge_results_measure:
  "nat max_pages - fcard (visited (merge_results max_pages rs s)) + length (queue (merge_results max_pages rs s))
   = nat max_pages - fcard (visited s) + length (queue s)"
  unfolding merge_results_def
proof (induction rs arbitrary: s)
  case Nil
  show ?case by simp
next
  case (Cons r rs)
  show ?case
    by (cases r) (simp_all add: Cons.IH merge_links_measure count_page_def)
qed

lemma dequeue_batch_length:
  "dequeue_batch max_depth cap q acc = (batch, rest) \<Longrightarrow>
     length rest \<le> length q \<and> (batch \<noteq> acc \<longrightarrow> length rest < length q)"
proof (induction max_depth cap q acc rule: dequeue_batch.induct)
  case (1 max_depth cap urls_to_crawl)
  then show ?case by simp
next
  case (2 max_depth cap url depth rest' urls_to_crawl)
  then show ?case by (fastforce split: if_splits)
qed

text \<open>
  \<open>while queue and pages_crawled < max_pages\<close>, with its \<open>break\<close> on an empty batch.
\<close>

function crawl_loop :: "int \<Rightarrow> int \<Rightarrow> int \<Rightarrow> network \<Rightarrow> crawl_state \<Rightarrow> crawl_state" where
  "crawl_loop max_depth max_pages workers net s =
     (if queue s \<noteq> [] \<and> pages_crawled s < max_pages then
        (case dequeue_batch max_depth (workers * 2) (queue s) [] of
           (urls_to_crawl, rest) \<Rightarrow>
             if urls_to_crawl = [] then dispatch urls_to_crawl rest s
             else crawl_loop max_depth max_pages workers net
                    (merge_results max_pages
                       (gather net (length (dispatched s)) urls_to_crawl)
                       (dispatch urls_to_crawl rest s)))
      else s)"
  by pat_completeness auto
termination
proof (relation "measure (\<lambda>(max_depth, max_pages, workers, net, s).
          nat max_pages - fcard (visited s) + length (queue s))", goal_cases)
  case 1
  show ?case by simp
next
  case (2 max_depth max_pages workers net s batch rest)
  then have "dequeue_batch max_depth (workers * 2) (queue s) [] = (batch, rest)" "batch \<noteq> []"
    by simp_all
  then have "length rest < length (queue s)"
    using dequeue_batch_length[of max_depth "workers * 2" "queue s" "[]" batch rest] by simp
  then show ?case
    by (simp add: merge_results_measure dispatch_def)
qed

text \<open>
  \<open>crawl_async\<close>. It raises before the loop in two cases: \<open>normalize_url(start_url)\<close>
  raises \<open>ValueError\<close> (the two calls on the start locator return the same), and then
  \<open>asyncio.Semaphore(workers)\<close> raises \<open>ValueError\<close> for a negative value.
\<close>

definition crawl_async ::
  "string \<Rightarrow> int \<Rightarrow> int \<Rightarrow> int \<Rightarrow> network \<Rightarrow> error + (int \<times> string fset)" where
  "crawl_async start_url max_depth max_pages workers net =
     (case normalize_url start_url of
        Inl e \<Rightarrow> Inl e
      | Inr seed \<Rightarrow>
          (let s0 = initial_state seed
           in if workers < 0 then Inl ValueError
              else (let s = crawl_loop max_depth max_pages workers net s0
                    in Inr (pages_crawled s, all_words s))))"

section \<open>Notions of the specification\<close>

text \<open>
  A maximal run of lower-case ASCII letters in a text: a non-empty block of letters that
  has no letter directly before it and none directly after it.
\<close>

definition maximal_run :: "string \<Rightarrow> string \<Rightarrow> bool" where
  "maximal_run text w \<longleftrightarrow>
     w \<noteq> [] \<and> list_all is_lower_az w \<and>
     (\<exists>pre post. text = pre @ w @ post \<and>
        (pre = [] \<or> \<not> is_lower_az (last pre)) \<and>
        (post = [] \<or> \<not> is_lower_az (hd post)))"









text \<open>
  The states of a crawl that starts at \<open>start_url\<close>. \<open>loop_head\<close> holds of the states in
  which the test of the outer loop is evaluated: the state before the loop, which exists
  when the start locator can be normalized, and the state after each batch whose results
  have all been merged. \<open>occurs\<close> holds of these and of the states in between:
  after the batch has been taken off the queue and the first \<open>k\<close> results have been
  merged, and, inside the merge of the next result, after the page has been counted and
  the first \<open>j\<close> of its links have been handled.
\<close>

inductive loop_head :: "string \<Rightarrow> int \<Rightarrow> int \<Rightarrow> int \<Rightarrow> network \<Rightarrow> crawl_state \<Rightarrow> bool"
  for start_url max_depth max_pages workers net where
  entry:
    "normalize_url start_url = Inr seed \<Longrightarrow>
     loop_head start_url max_depth max_pages workers net (initial_state seed)"
| iteration:
    "loop_head start_url max_depth max_pages workers net s \<Longrightarrow>
     queue s \<noteq> [] \<Longrightarrow> pages_crawled s < max_pages \<Longrightarrow>
     dequeue_batch max_depth (workers * 2) (queue s) [] = (batch, rest) \<Longrightarrow>
     batch \<noteq> [] \<Longrightarrow>
     loop_head start_url max_depth max_pages workers net
       (merge_results max_pages (gather net (length (dispatched s)) batch) (dispatch batch rest s))"

inductive occurs :: "string \<Rightarrow> int \<Rightarrow> int \<Rightarrow> int \<Rightarrow> network \<Rightarrow> crawl_state \<Rightarrow> bool"
  for start_url max_depth max_pages workers net where
  at_loop_head:
    "loop_head start_url max_depth max_pages workers net s \<Longrightarrow>
     occurs start_url max_depth max_pages workers net s"
| after_results:
    "loop_head start_url max_depth max_pages workers net s \<Longrightarrow>
     queue s \<noteq> [] \<Longrightarrow> pages_crawled s < max_pages \<Longrightarrow>
     dequeue_batch max_depth (workers * 2) (queue s) [] = (batch, rest) \<Longrightarrow>
     k \<le> length batch \<Longrightarrow>
     occurs start_url max_depth max_pages workers net
       (merge_results max_pages (take k (gather net (length (dispatched s)) batch))
          (dispatch batch rest s))"
| within_result:
    "loop_head start_url max_depth max_pages workers net s \<Longrightarrow>
     queue s \<noteq> [] \<Longrightarrow> pages_crawled s < max_pages \<Longrightarrow>
     dequeue_batch max_depth (workers * 2) (queue s) [] = (batch, rest) \<Longrightarrow>
     k < length batch \<Longrightarrow>
     gather net (length (dispatched s)) batch ! k = Tuple crawled_url words links \<Longrightarrow>
     j \<le> length links \<Longrightarrow>
     occurs start_url max_depth max_pages workers net
       (merge_links max_pages (take j links)
          (count_page words
             (merge_results max_pages (take k (gather net (length (dispatched s)) batch))
                (dispatch batch rest s))))"

text \<open>
  The invariant of the frontier: the addresses dispatched so far and the addresses in the
  queue are pairwise different and all visited, every entry of the queue has depth 0, and
  the Visited Set is no larger than the page budget, or than 1 when the budget is smaller.
\<close>

definition frontier_inv :: "int \<Rightarrow> crawl_state \<Rightarrow> bool" where
  "frontier_inv max_pages s \<longleftrightarrow>
     distinct (dispatched s @ map fst (queue s)) \<and>
     set (dispatched s @ map fst (queue s)) \<subseteq> fset (visited s) \<and>
     (\<forall>e\<in>set (queue s). snd e = 0) \<and>
     int (fcard (visited s)) \<le> max 1 max_pages"

text \<open>A token of the Word Corpus, and a result whose words are tokens.\<close>

definition is_token :: "string \<Rightarrow> bool" where
  "is_token w \<longleftrightarrow> w \<noteq> [] \<and> list_all is_lower_az w"

definition tokens_only :: "gathered \<Rightarrow> bool" where
  "tokens_only r \<longleftrightarrow> (\<forall>u ws ls w. r = Tuple u ws ls \<longrightarrow> w |\<in>| ws \<longrightarrow> is_token w)"

definition counted_inv :: "int \<Rightarrow> crawl_state \<Rightarrow> bool" where
  "counted_inv mp s \<longleftrightarrow>
     frontier_inv mp s \<and> 0 \<le> pages_crawled s \<and>
     pages_crawled s \<le> int (length (dispatched s)) \<and> pages_crawled s \<le> max 0 mp \<and>
     (\<forall>w. w |\<in>| all_words s \<longrightarrow> is_token w)"

text \<open>An entry that the depth filter of the inner loop keeps.\<close>

definition within_depth :: "int \<Rightarrow> address \<times> int \<Rightarrow> bool" where
  "within_depth max_depth e \<longleftrightarrow> \<not> snd e > max_depth"

text \<open>
  A fetch that ends in a failure: \<open>client.get\<close> raises, the status code is not a 2xx code,
  or the body cannot be parsed.
\<close>

definition fetch_failed :: "outcome \<Rightarrow> bool" where
  "fetch_failed out \<longleftrightarrow>
     (case out of
        Get_Raises \<Rightarrow> True
      | Response status ctype content \<Rightarrow> \<not> is_success status \<or> content = Unparsable)"

text \<open>
  \<open>str.upper\<close>, which the program does not call and one claim names. On one code point
  below 256: the ASCII and Latin-1 small letters move down by 32 (the division sign
  \<open>0xF7\<close> apart), the sharp s \<open>0xDF\<close> becomes \<open>SS\<close>, and the upper-case forms of the micro
  sign \<open>0xB5\<close> and of \<open>0xFF\<close> lie beyond code point 255, where the model has no value.
\<close>

definition upper_char :: "char \<Rightarrow> string option" where
  "upper_char c =
     (let n = (of_char c :: nat)
      in if (97 \<le> n \<and> n \<le> 122) \<or> (224 \<le> n \<and> n \<le> 254 \<and> n \<noteq> 247) then Some [char_of (n - 32)]
         else if n = 223 then Some ''SS''
         else if n = 181 \<or> n = 255 then None
         else Some [c])"

fun upper :: "string \<Rightarrow> string option" where
  "upper [] = Some []"
| "upper (c # cs) =
     (case upper_char c of
        None \<Rightarrow> None
      | Some u \<Rightarrow> (case upper cs of None \<Rightarrow> None | Some us \<Rightarrow> Some (u @ us)))"

definition is_ascii :: "char \<Rightarrow> bool" where
  "is_ascii c \<longleftrightarrow> (of_char c :: nat) < 128"

subsection \<open>Three networks\<close>

text \<open>
  A network on which every request fails, and a site of two pages: the seed page links
  to a second page three times over, and the second page answers 404.
\<close>

definition dead_network :: network where
  "dead_network = (\<lambda>k url. Get_Raises)"

definition two_page_network :: network where
  "two_page_network = (\<lambda>k url.
     if url = ''http://a/'' then
       Response 200 ''text/html; charset=utf-8''
         (Parsed ''Hello, World! foo-bar 123'' [''http://a/b#top'', ''http://a/b'', ''http://a/''])
     else if url = ''http://a/b'' then Response 404 ''text/html'' (Parsed ''Not Found'' [])
     else Get_Raises)"

text \<open>
  A site of four pages. The seed page links to the three others: the request for the
  first of them fails, the body of the second cannot be parsed, and the third is a sound
  page.
\<close>

definition faulty_network :: network where
  "faulty_network = (\<lambda>k url.
     if url = ''http://a/'' then
       Response 200 ''text/html''
         (Parsed ''alpha'' [''http://a/b'', ''http://a/c'', ''http://a/d''])
     else if url = ''http://a/c'' then
       Response 200 ''text/html'' Unparsable
     else if url = ''http://a/d'' then Response 200 ''text/html'' (Parsed ''delta'' [])
     else Get_Raises)"

text \<open>The state of a crawl of the second network, budget 10, after its first batch.\<close>

definition after_first_batch :: crawl_state where
  "after_first_batch =
     merge_results 10 (gather two_page_network 0 [(''http://a/'', 0)])
       (dispatch [(''http://a/'', 0)] [] (initial_state ''http://a/''))"

section \<open>Word extraction: lemmas\<close>

lemma maximal_run_all_letters:
  assumes "list_all is_lower_az t"
  shows "maximal_run t w \<longleftrightarrow> w = t \<and> t \<noteq> []"
proof
  assume "maximal_run t w"
  then obtain pre post where w: "w \<noteq> []" "list_all is_lower_az w"
    and t: "t = pre @ w @ post"
    and b: "pre = [] \<or> \<not> is_lower_az (last pre)" "post = [] \<or> \<not> is_lower_az (hd post)"
    unfolding maximal_run_def by blast
  have "pre = []"
  proof (rule ccontr)
    assume "pre \<noteq> []"
    then have "last pre \<in> set t" using t by simp
    then have "is_lower_az (last pre)" using assms by (simp add: list_all_iff)
    then show False using b \<open>pre \<noteq> []\<close> by simp
  qed
  moreover have "post = []"
  proof (rule ccontr)
    assume "post \<noteq> []"
    then have "hd post \<in> set t" using t by simp
    then have "is_lower_az (hd post)" using assms by (simp add: list_all_iff)
    then show False using b \<open>post \<noteq> []\<close> by simp
  qed
  ultimately show "w = t \<and> t \<noteq> []" using t w by simp
next
  assume "w = t \<and> t \<noteq> []"
  then show "maximal_run t w"
    unfolding maximal_run_def using assms
    by (intro conjI exI[of _ "[]"]) auto
qed

lemma maximal_run_after_separator:
  assumes cur: "list_all is_lower_az cur" and c: "\<not> is_lower_az c"
  shows "maximal_run (cur @ c # cs) w \<longleftrightarrow> (w = cur \<and> cur \<noteq> []) \<or> maximal_run cs w"
proof
  assume "maximal_run (cur @ c # cs) w"
  then obtain pre post where w: "w \<noteq> []" "list_all is_lower_az w"
    and t: "cur @ c # cs = pre @ w @ post"
    and b1: "pre = [] \<or> \<not> is_lower_az (last pre)"
    and b2: "post = [] \<or> \<not> is_lower_az (hd post)"
    unfolding maximal_run_def by blast
  show "(w = cur \<and> cur \<noteq> []) \<or> maximal_run cs w"
  proof (cases "pre = []")
    case True
    with t have "cur @ c # cs = w @ post" by simp
    then obtain us where "(cur = w @ us \<and> us @ c # cs = post) \<or> (cur @ us = w \<and> c # cs = us @ post)"
      by (auto simp: append_eq_append_conv2)
    then show ?thesis
    proof
      assume h: "cur = w @ us \<and> us @ c # cs = post"
      show ?thesis
      proof (cases us)
        case Nil
        with h w show ?thesis by simp
      next
        case (Cons u us')
        with h have "hd post = u" "u \<in> set cur" "post \<noteq> []" by auto
        with cur b2 show ?thesis by (auto simp: list_all_iff)
      qed
    next
      assume h: "cur @ us = w \<and> c # cs = us @ post"
      show ?thesis
      proof (cases us)
        case Nil
        with h w show ?thesis by simp
      next
        case (Cons u us')
        with h have "u = c" "u \<in> set w" by auto
        with w c show ?thesis by (auto simp: list_all_iff)
      qed
    qed
  next
    case False
    with b1 have nl: "\<not> is_lower_az (last pre)" by simp
    from t obtain us where "(cur = pre @ us \<and> us @ c # cs = w @ post) \<or> (cur @ us = pre \<and> c # cs = us @ w @ post)"
      by (auto simp: append_eq_append_conv2)
    then show ?thesis
    proof
      assume h: "cur = pre @ us \<and> us @ c # cs = w @ post"
      with False have "last pre \<in> set cur" by simp
      with cur nl show ?thesis by (auto simp: list_all_iff)
    next
      assume h: "cur @ us = pre \<and> c # cs = us @ w @ post"
      show ?thesis
      proof (cases us)
        case Nil
        with h w have "hd w = c" "hd w \<in> set w" by (cases w; simp)+
        with w c show ?thesis by (auto simp: list_all_iff)
      next
        case (Cons u us')
        with h have cs: "cs = us' @ w @ post" and pre: "pre = cur @ c # us'" by auto
        have "us' = [] \<or> \<not> is_lower_az (last us')" using nl pre by auto
        with cs w b2 have "maximal_run cs w" unfolding maximal_run_def by blast
        then show ?thesis ..
      qed
    qed
  qed
next
  assume "(w = cur \<and> cur \<noteq> []) \<or> maximal_run cs w"
  then show "maximal_run (cur @ c # cs) w"
  proof
    assume "w = cur \<and> cur \<noteq> []"
    then show ?thesis unfolding maximal_run_def using cur c
      by (intro conjI exI[of _ "[]"] exI[of _ "c # cs"]) auto
  next
    assume "maximal_run cs w"
    then obtain pre post where w: "w \<noteq> []" "list_all is_lower_az w"
      and t: "cs = pre @ w @ post"
      and b1: "pre = [] \<or> \<not> is_lower_az (last pre)"
      and b2: "post = [] \<or> \<not> is_lower_az (hd post)"
      unfolding maximal_run_def by blast
    have "cur @ c # cs = (cur @ c # pre) @ w @ post" using t by simp
    moreover have "\<not> is_lower_az (last (cur @ c # pre))" using b1 c by auto
    ultimately show ?thesis unfolding maximal_run_def using w b2 by blast
  qed
qed

lemma scan_words_runs:
  "list_all is_lower_az cur \<Longrightarrow> w \<in> set (scan_words cur xs) \<longleftrightarrow> maximal_run (cur @ xs) w"
proof (induction xs arbitrary: cur)
  case Nil
  then show ?case by (auto simp: maximal_run_all_letters)
next
  case (Cons c cs)
  show ?case
  proof (cases "is_lower_az c")
    case True
    with Cons.prems have "list_all is_lower_az (cur @ [c])" by simp
    from Cons.IH[OF this] True show ?thesis by simp
  next
    case False
    have "list_all is_lower_az []" by simp
    from Cons.IH[OF this] have ih: "w \<in> set (scan_words [] cs) \<longleftrightarrow> maximal_run cs w" by simp
    show ?thesis
      using False ih maximal_run_after_separator[OF Cons.prems False, of cs w]
      by auto
  qed
qed

lemma extract_words_iff: "w |\<in>| extract_words text \<longleftrightarrow> maximal_run (lower text) w"
  using scan_words_runs[of "[]" w "lower text"]
  by (simp add: extract_words_def WORD_PATTERN_findall_def fset_of_list.rep_eq)

section \<open>Address normalization: lemmas\<close>

lemma of_char_lower_char:
  "(of_char (lower_char c) :: nat) =
     (let n = of_char c in if (65 \<le> n \<and> n \<le> 90) \<or> (192 \<le> n \<and> n \<le> 222 \<and> n \<noteq> 215) then n + 32 else n)"
  by (auto simp: lower_char_def Let_def)



























































subsection \<open>Validation of the network location\<close>


















section \<open>The crawl engine: lemmas\<close>

subsection \<open>Fields of the state under the operations\<close>

lemma add_link_fields [simp]:
  "dispatched (add_link mp l s) = dispatched s"
  "pages_crawled (add_link mp l s) = pages_crawled s"
  "all_words (add_link mp l s) = all_words s"
  by (simp_all add: add_link_def)

lemma merge_links_fields [simp]:
  "dispatched (merge_links mp ls s) = dispatched s"
  "pages_crawled (merge_links mp ls s) = pages_crawled s"
  "all_words (merge_links mp ls s) = all_words s"
  unfolding merge_links_def by (induction ls arbitrary: s; simp)+

lemma count_page_fields [simp]:
  "dispatched (count_page ws s) = dispatched s"
  "visited (count_page ws s) = visited s"
  "queue (count_page ws s) = queue s"
  "pages_crawled (count_page ws s) = pages_crawled s + 1"
  "all_words (count_page ws s) = all_words s |\<union>| ws"
  by (simp_all add: count_page_def)

lemma dispatch_fields [simp]:
  "dispatched (dispatch batch rest s) = dispatched s @ map fst batch"
  "visited (dispatch batch rest s) = visited s"
  "queue (dispatch batch rest s) = rest"
  "pages_crawled (dispatch batch rest s) = pages_crawled s"
  "all_words (dispatch batch rest s) = all_words s"
  by (simp_all add: dispatch_def)

lemma merge_results_Nil [simp]: "merge_results mp [] s = s"
  by (simp add: merge_results_def)

lemma merge_results_Cons [simp]:
  "merge_results mp (r # rs) s = merge_results mp rs (merge_result mp r s)"
  by (simp add: merge_results_def)

lemma merge_results_append:
  "merge_results mp (rs @ rs') s = merge_results mp rs' (merge_results mp rs s)"
  by (simp add: merge_results_def)

lemma merge_links_Nil [simp]: "merge_links mp [] s = s"
  by (simp add: merge_links_def)

lemma merge_links_Cons [simp]:
  "merge_links mp (l # ls) s = merge_links mp ls (add_link mp l s)"
  by (simp add: merge_links_def)

lemma merge_result_dispatched [simp]: "dispatched (merge_result mp r s) = dispatched s"
  by (cases r) simp_all

lemma merge_results_dispatched [simp]: "dispatched (merge_results mp rs s) = dispatched s"
  by (induction rs arbitrary: s) simp_all

lemma merge_result_pages:
  "pages_crawled (merge_result mp r s) = pages_crawled s + (if is_tuple r then 1 else 0)"
  by (cases r) simp_all

lemma merge_results_pages:
  "pages_crawled (merge_results mp rs s) = pages_crawled s + int (length (filter is_tuple rs))"
  by (induction rs arbitrary: s) (simp_all add: merge_result_pages)

subsection \<open>The frontier invariant\<close>

lemma frontier_inv_initial: "frontier_inv mp (initial_state seed)"
  by (simp add: frontier_inv_def initial_state_def fcard_finsert_disjoint fcard_fempty)

lemma frontier_inv_add_link: "frontier_inv mp s \<Longrightarrow> frontier_inv mp (add_link mp l s)"
  unfolding frontier_inv_def add_link_def
  by (auto simp: fcard_finsert_disjoint fcard_fempty)

lemma frontier_inv_merge_links: "frontier_inv mp s \<Longrightarrow> frontier_inv mp (merge_links mp ls s)"
  by (induction ls arbitrary: s) (simp_all add: frontier_inv_add_link)

lemma frontier_inv_count_page: "frontier_inv mp s \<Longrightarrow> frontier_inv mp (count_page ws s)"
  by (simp add: frontier_inv_def)

lemma frontier_inv_merge_result: "frontier_inv mp s \<Longrightarrow> frontier_inv mp (merge_result mp r s)"
  by (cases r) (simp_all add: frontier_inv_merge_links frontier_inv_count_page)

lemma frontier_inv_merge_results: "frontier_inv mp s \<Longrightarrow> frontier_inv mp (merge_results mp rs s)"
  by (induction rs arbitrary: s) (simp_all add: frontier_inv_merge_result)

subsection \<open>Dequeuing a batch\<close>

lemma dequeue_batch_prefix:
  "dequeue_batch md cap q acc = (batch, rest) \<Longrightarrow>
     \<exists>k\<le>length q. rest = drop k q \<and> batch = acc @ filter (within_depth md) (take k q)"
proof (induction md cap q acc rule: dequeue_batch.induct)
  case (1 md cap acc)
  then show ?case by simp
next
  case (2 md cap url depth q acc)
  show ?case
  proof (cases "int (length acc) < cap")
    case False
    with "2.prems" have "rest = drop 0 ((url, depth) # q)" "batch = acc @ filter (within_depth md) (take 0 ((url, depth) # q))"
      by simp_all
    then show ?thesis by blast
  next
    case True
    show ?thesis
    proof (cases "depth > md")
      case deep: True
      with True "2.prems" have "dequeue_batch md cap q acc = (batch, rest)" by simp
      from "2.IH"(1)[OF True deep this] obtain k where
        k: "k \<le> length q" "rest = drop k q" "batch = acc @ filter (within_depth md) (take k q)" by blast
      have "Suc k \<le> length ((url, depth) # q)" using k(1) by simp
      moreover have "rest = drop (Suc k) ((url, depth) # q)" using k(2) by simp
      moreover have "batch = acc @ filter (within_depth md) (take (Suc k) ((url, depth) # q))"
        using k(3) deep by (simp add: within_depth_def)
      ultimately show ?thesis by blast
    next
      case ok: False
      with True "2.prems" have "dequeue_batch md cap q (acc @ [(url, depth)]) = (batch, rest)" by simp
      from "2.IH"(2)[OF True ok this] obtain k where
        k: "k \<le> length q" "rest = drop k q"
          "batch = (acc @ [(url, depth)]) @ filter (within_depth md) (take k q)" by blast
      have "Suc k \<le> length ((url, depth) # q)" using k(1) by simp
      moreover have "rest = drop (Suc k) ((url, depth) # q)" using k(2) by simp
      moreover have "batch = acc @ filter (within_depth md) (take (Suc k) ((url, depth) # q))"
        using k(3) ok by (simp add: within_depth_def)
      ultimately show ?thesis by blast
    qed
  qed
qed

lemma dequeue_batch_fifo:
  "fst (dequeue_batch md cap q acc)
   = acc @ take (nat cap - length acc) (filter (within_depth md) q)"
proof (induction md cap q acc rule: dequeue_batch.induct)
  case (1 md cap acc)
  then show ?case by simp
next
  case (2 md cap url depth q acc)
  show ?case
  proof (cases "int (length acc) < cap")
    case False
    then have "nat cap - length acc = 0" by simp
    with False show ?thesis by simp
  next
    case True
    then have pos: "nat cap - length acc = Suc (nat cap - length (acc @ [(url, depth)]))" by simp
    show ?thesis
    proof (cases "depth > md")
      case deep: True
      from "2.IH"(1)[OF True deep] True deep show ?thesis by (simp add: within_depth_def)
    next
      case ok: False
      from "2.IH"(2)[OF True ok] True ok show ?thesis
        by (simp add: within_depth_def pos del: length_append)
    qed
  qed
qed

lemma dequeue_batch_no_discard:
  assumes "dequeue_batch md cap q [] = (batch, rest)" and "\<forall>e\<in>set q. snd e \<le> md"
  shows "batch @ rest = q"
proof -
  from dequeue_batch_prefix[OF assms(1)] obtain k where
    k: "rest = drop k q" "batch = filter (within_depth md) (take k q)" by auto
  have "\<forall>e\<in>set (take k q). within_depth md e"
    using assms(2) by (auto simp: within_depth_def dest!: in_set_takeD)
  then have "filter (within_depth md) (take k q) = take k q" by (simp add: filter_id_conv)
  with k show ?thesis by simp
qed

lemma dequeue_batch_split:
  assumes "dequeue_batch md cap q [] = (batch, rest)"
  obtains popped where "q = popped @ rest" and "batch = filter (within_depth md) popped"
proof -
  from dequeue_batch_prefix[OF assms] obtain k where
    "rest = drop k q" "batch = filter (within_depth md) (take k q)" by auto
  moreover have "q = take k q @ drop k q" by simp
  ultimately show ?thesis using that by metis
qed

lemma frontier_inv_dispatch:
  assumes "frontier_inv mp s" and "dequeue_batch md cap (queue s) [] = (batch, rest)"
  shows "frontier_inv mp (dispatch batch rest s)"
proof -
  from assms(2) obtain popped where q: "queue s = popped @ rest"
    and b: "batch = filter (within_depth md) popped" by (rule dequeue_batch_split)
  from assms(1) have d: "distinct (dispatched s @ map fst popped @ map fst rest)"
    and sub: "set (dispatched s @ map fst popped @ map fst rest) \<subseteq> fset (visited s)"
    and dep: "\<forall>e\<in>set (popped @ rest). snd e = 0"
    and card: "int (fcard (visited s)) \<le> max 1 mp"
    unfolding frontier_inv_def q by simp_all
  have fa: "set (map fst batch) \<subseteq> set (map fst popped)" unfolding b by auto
  have da: "distinct (map fst batch)" unfolding b using d by (simp add: distinct_map_filter)
  have disj: "set (dispatched s) \<inter> set (map fst popped) = {}"
    "set (dispatched s) \<inter> set (map fst rest) = {}"
    "set (map fst popped) \<inter> set (map fst rest) = {}"
    and dd: "distinct (dispatched s)" "distinct (map fst rest)"
    using d by (auto simp del: set_map)
  have disj': "set (dispatched s) \<inter> set (map fst batch) = {}"
    "set (map fst batch) \<inter> set (map fst rest) = {}"
    using disj fa by blast+
  have "distinct ((dispatched s @ map fst batch) @ map fst rest)"
    using dd da disj disj' by (simp add: Int_Un_distrib del: set_map)
  moreover have "set ((dispatched s @ map fst batch) @ map fst rest) \<subseteq> fset (visited s)"
    using sub fa by (auto simp del: set_map)
  moreover have "\<forall>e\<in>set rest. snd e = 0" using dep by simp
  ultimately show ?thesis using card by (simp add: frontier_inv_def)
qed

lemma frontier_inv_count:
  assumes "frontier_inv mp s"
  shows "int (length (dispatched s)) \<le> max 1 mp"
proof -
  from assms have d: "distinct (dispatched s)" and sub: "set (dispatched s) \<subseteq> fset (visited s)"
    and card: "int (fcard (visited s)) \<le> max 1 mp"
    by (simp_all add: frontier_inv_def)
  have "length (dispatched s) = card (set (dispatched s))" using d by (simp add: distinct_card)
  also have "\<dots> \<le> card (fset (visited s))" using sub by (simp add: card_mono)
  also have "\<dots> = fcard (visited s)" by (simp add: fcard.rep_eq)
  finally show ?thesis using card by simp
qed

subsection \<open>The results of a batch\<close>

lemma crawl_body_address: "crawl_body url out = Inr (u, ws, ls) \<Longrightarrow> u = url"
  by (cases out) (auto split: if_splits page.splits sum.splits)

lemma crawl_url_tuple: "\<exists>ws ls. crawl_url url out = Inr (url, ws, ls)"
proof (cases "crawl_body url out")
  case (Inl e)
  then show ?thesis by (simp add: crawl_url_def)
next
  case (Inr result)
  obtain u ws ls where r: "result = (u, ws, ls)" by (cases result)
  with Inr have "u = url" using crawl_body_address by blast
  with Inr r show ?thesis by (simp add: crawl_url_def)
qed

lemma crawl_url_caught: "crawl_body url out = Inl e \<Longrightarrow> crawl_url url out = Inr (url, {||}, [])"
  by (simp add: crawl_url_def)

lemma task_result_crawl_url: "is_tuple (task_result (crawl_url url out))"
  using crawl_url_tuple[of url out] by auto

lemma length_gather [simp]: "length (gather net k batch) = length batch"
  by (induction net k batch rule: gather.induct) simp_all

lemma gather_from_crawl_url:
  "r \<in> set (gather net k batch) \<Longrightarrow> \<exists>url out. r = task_result (crawl_url url out)"
  by (induction net k batch rule: gather.induct) auto

lemma gather_all_tuples: "filter is_tuple (gather net k batch) = gather net k batch"
proof -
  have "\<forall>r\<in>set (gather net k batch). is_tuple r"
  proof
    fix r assume "r \<in> set (gather net k batch)"
    then obtain url out where "r = task_result (crawl_url url out)"
      using gather_from_crawl_url by blast
    then show "is_tuple r" using task_result_crawl_url by simp
  qed
  then show ?thesis by (simp add: filter_id_conv)
qed

lemma extract_words_tokens: "w |\<in>| extract_words text \<Longrightarrow> is_token w"
  by (simp add: extract_words_iff maximal_run_def is_token_def)

lemma crawl_url_tokens:
  "crawl_url url out = Inr (u, ws, ls) \<Longrightarrow> w |\<in>| ws \<Longrightarrow> is_token w"
  by (cases out)
    (auto simp: crawl_url_def split: if_splits page.splits sum.splits dest: extract_words_tokens)

lemma merge_result_tokens:
  "tokens_only r \<Longrightarrow> \<forall>w. w |\<in>| all_words s \<longrightarrow> is_token w \<Longrightarrow>
     \<forall>w. w |\<in>| all_words (merge_result mp r s) \<longrightarrow> is_token w"
  by (cases r) (auto simp: tokens_only_def)

lemma merge_results_tokens:
  "\<forall>r\<in>set rs. tokens_only r \<Longrightarrow> \<forall>w. w |\<in>| all_words s \<longrightarrow> is_token w \<Longrightarrow>
     \<forall>w. w |\<in>| all_words (merge_results mp rs s) \<longrightarrow> is_token w"
proof (induction rs arbitrary: s)
  case Nil
  then show ?case by simp
next
  case (Cons r rs)
  have "\<forall>w. w |\<in>| all_words (merge_result mp r s) \<longrightarrow> is_token w"
    using Cons.prems by (intro merge_result_tokens) simp_all
  then show ?case using Cons.IH[of "merge_result mp r s"] Cons.prems(1) by simp
qed

lemma gather_tokens: "\<forall>r\<in>set (gather net k batch). tokens_only r"
proof
  fix r assume "r \<in> set (gather net k batch)"
  then obtain url out where r: "r = task_result (crawl_url url out)"
    using gather_from_crawl_url by blast
  obtain ws' ls' where c: "crawl_url url out = Inr (url, ws', ls')"
    using crawl_url_tuple by blast
  show "tokens_only r" unfolding tokens_only_def
  proof (intro allI impI)
    fix u ws ls w assume "r = Tuple u ws ls" and w: "w |\<in>| ws"
    with r c have "crawl_url url out = Inr (u, ws, ls)" by simp
    from crawl_url_tokens[OF this w] show "is_token w" .
  qed
qed

subsection \<open>The states of a crawl\<close>

lemma loop_head_inv:
  "loop_head start_url md mp wk net s \<Longrightarrow>
     counted_inv mp s \<and> pages_crawled s = int (length (dispatched s))"
proof (induction rule: loop_head.induct)
  case (entry seed)
  show ?case
    by (simp add: counted_inv_def frontier_inv_initial) (simp add: initial_state_def)
next
  case (iteration s batch rest)
  let ?rs = "gather net (length (dispatched s)) batch"
  let ?s' = "merge_results mp ?rs (dispatch batch rest s)"
  from iteration.IH have inv: "frontier_inv mp s" and pg: "pages_crawled s = int (length (dispatched s))"
    and nonneg: "0 \<le> pages_crawled s" and tok: "\<forall>w. w |\<in>| all_words s \<longrightarrow> is_token w"
    by (simp_all add: counted_inv_def)
  have f: "frontier_inv mp ?s'"
    by (intro frontier_inv_merge_results frontier_inv_dispatch[OF inv iteration.hyps(4)])
  have pages: "pages_crawled ?s' = int (length (dispatched ?s'))"
    using pg by (simp add: merge_results_pages gather_all_tuples)
  have "1 \<le> mp" using nonneg iteration.hyps(3) by simp
  then have "pages_crawled ?s' \<le> max 0 mp"
    using frontier_inv_count[OF f] pages by simp
  moreover have "\<forall>w. w |\<in>| all_words ?s' \<longrightarrow> is_token w"
    using tok by (intro merge_results_tokens gather_tokens) simp
  ultimately show ?case using f pages by (simp add: counted_inv_def)
qed

lemma filter_take_le: "length (filter P (take k xs)) \<le> k"
  by (metis length_filter_le length_take min.cobounded2 order_trans)

lemma occurs_inv:
  "occurs start_url md mp wk net s \<Longrightarrow> counted_inv mp s"
proof (induction rule: occurs.induct)
  case (at_loop_head s)
  then show ?case using loop_head_inv by blast
next
  case (after_results s batch rest k)
  let ?rs = "take k (gather net (length (dispatched s)) batch)"
  let ?s' = "merge_results mp ?rs (dispatch batch rest s)"
  from loop_head_inv[OF after_results(1)]
  have inv: "frontier_inv mp s" and pg: "pages_crawled s = int (length (dispatched s))"
    and tok: "\<forall>w. w |\<in>| all_words s \<longrightarrow> is_token w"
    by (simp_all add: counted_inv_def)
  have f: "frontier_inv mp ?s'"
    by (intro frontier_inv_merge_results frontier_inv_dispatch[OF inv after_results(4)])
  have "length (filter is_tuple ?rs) \<le> k" by (rule filter_take_le)
  then have pages: "pages_crawled ?s' \<le> int (length (dispatched ?s'))" "0 \<le> pages_crawled ?s'"
    using pg after_results(5) by (simp_all add: merge_results_pages)
  have "1 \<le> mp" using pg after_results(3) by simp
  then have "pages_crawled ?s' \<le> max 0 mp"
    using frontier_inv_count[OF f] pages by simp
  moreover have "\<forall>r\<in>set ?rs. tokens_only r" using gather_tokens by (auto dest: in_set_takeD)
  then have "\<forall>w. w |\<in>| all_words ?s' \<longrightarrow> is_token w"
    using tok by (intro merge_results_tokens) simp_all
  ultimately show ?case using f pages by (simp add: counted_inv_def)
next
  case (within_result s batch rest k crawled_url words links j)
  let ?g = "gather net (length (dispatched s)) batch"
  let ?rs = "take k ?g"
  let ?m = "merge_results mp ?rs (dispatch batch rest s)"
  let ?s' = "merge_links mp (take j links) (count_page words ?m)"
  from loop_head_inv[OF within_result(1)]
  have inv: "frontier_inv mp s" and pg: "pages_crawled s = int (length (dispatched s))"
    and tok: "\<forall>w. w |\<in>| all_words s \<longrightarrow> is_token w"
    by (simp_all add: counted_inv_def)
  have f: "frontier_inv mp ?s'"
    by (intro frontier_inv_merge_links frontier_inv_count_page frontier_inv_merge_results
        frontier_inv_dispatch[OF inv within_result(4)])
  have "length (filter is_tuple ?rs) \<le> k" by (rule filter_take_le)
  then have pages: "pages_crawled ?s' \<le> int (length (dispatched ?s'))" "0 \<le> pages_crawled ?s'"
    using pg within_result(5) by (simp_all add: merge_results_pages)
  have "1 \<le> mp" using pg within_result(3) by simp
  then have "pages_crawled ?s' \<le> max 0 mp"
    using frontier_inv_count[OF f] pages by simp
  moreover have "\<forall>r\<in>set ?rs. tokens_only r" using gather_tokens by (auto dest: in_set_takeD)
  then have m: "\<forall>w. w |\<in>| all_words ?m \<longrightarrow> is_token w"
    using tok by (intro merge_results_tokens) simp_all
  have "?g ! k \<in> set ?g" using within_result(5) by simp
  then have "tokens_only (Tuple crawled_url words links)"
    using gather_tokens within_result(6) by metis
  then have "\<forall>w. w |\<in>| all_words ?s' \<longrightarrow> is_token w"
    using m by (auto simp: tokens_only_def)
  ultimately show ?case using f pages by (simp add: counted_inv_def)
qed

lemma crawl_loop_occurs:
  "loop_head start_url md mp wk net s \<Longrightarrow> occurs start_url md mp wk net (crawl_loop md mp wk net s)"
proof (induction md mp wk net s rule: crawl_loop.induct)
  case (1 md mp wk net s)
  show ?case
  proof (cases "queue s \<noteq> [] \<and> pages_crawled s < mp")
    case False
    then have "crawl_loop md mp wk net s = s" by (subst crawl_loop.simps) (simp only: if_False)
    then show ?thesis using "1.prems" by (simp add: occurs.at_loop_head)
  next
    case True
    obtain batch rest where dq: "dequeue_batch md (wk * 2) (queue s) [] = (batch, rest)"
      by (cases "dequeue_batch md (wk * 2) (queue s) []")
    show ?thesis
    proof (cases "batch = []")
      case empty: True
      have "crawl_loop md mp wk net s = dispatch batch rest s"
        by (subst crawl_loop.simps) (simp only: True if_True dq prod.case empty simp_thms)
      moreover have "occurs start_url md mp wk net
          (merge_results mp (take 0 (gather net (length (dispatched s)) batch)) (dispatch batch rest s))"
        using "1.prems" True dq by (intro occurs.after_results) simp_all
      ultimately show ?thesis by simp
    next
      case False
      let ?s' = "merge_results mp (gather net (length (dispatched s)) batch) (dispatch batch rest s)"
      have "crawl_loop md mp wk net s = crawl_loop md mp wk net ?s'"
        by (subst crawl_loop.simps) (simp only: True if_True dq prod.case False if_False simp_thms)
      moreover have "loop_head start_url md mp wk net ?s'"
        using "1.prems" True dq False by (intro loop_head.iteration) simp_all
      ultimately show ?thesis using "1.IH"[OF True dq[symmetric] False] by simp
    qed
  qed
qed

text \<open>
  The end of the loop. A batch shorter than the cap has used up the queue, so the loop is
  left with an empty queue, with the budget reached, or with no worker at all; and in the
  state in which it is left every address that was dispatched has been counted.
\<close>

lemma dequeue_batch_exhausts:
  "dequeue_batch md cap q acc = (batch, rest) \<Longrightarrow> int (length batch) < cap \<Longrightarrow> rest = []"
proof (induction md cap q acc rule: dequeue_batch.induct)
  case (1 max_depth cap urls_to_crawl)
  then show ?case by simp
next
  case (2 max_depth cap url depth rest' urls_to_crawl)
  show ?case
  proof (cases "int (length urls_to_crawl) < cap")
    case True
    then show ?thesis using 2 by (auto split: if_splits)
  next
    case False
    then have "batch = urls_to_crawl" using "2.prems"(1) by simp
    then show ?thesis using False "2.prems"(2) by simp
  qed
qed

lemma crawl_loop_exit:
  "queue (crawl_loop md mp wk net s) = [] \<or> mp \<le> pages_crawled (crawl_loop md mp wk net s)
     \<or> wk \<le> 0"
proof (induction md mp wk net s rule: crawl_loop.induct)
  case (1 md mp wk net s)
  show ?case
  proof (cases "queue s \<noteq> [] \<and> pages_crawled s < mp")
    case False
    then have "crawl_loop md mp wk net s = s" by (subst crawl_loop.simps) (simp only: if_False)
    then show ?thesis using False by auto
  next
    case True
    obtain batch rest where dq: "dequeue_batch md (wk * 2) (queue s) [] = (batch, rest)"
      by (cases "dequeue_batch md (wk * 2) (queue s) []")
    show ?thesis
    proof (cases "batch = []")
      case empty: True
      have c: "crawl_loop md mp wk net s = dispatch batch rest s"
        by (subst crawl_loop.simps) (simp only: True if_True dq prod.case empty simp_thms)
      show ?thesis
      proof (cases "wk \<le> 0")
        case True
        then show ?thesis by simp
      next
        case False
        then have "int (length batch) < wk * 2" using empty by simp
        from dequeue_batch_exhausts[OF dq this] have "rest = []" .
        then show ?thesis using c by simp
      qed
    next
      case False
      let ?s' = "merge_results mp (gather net (length (dispatched s)) batch) (dispatch batch rest s)"
      have "crawl_loop md mp wk net s = crawl_loop md mp wk net ?s'"
        by (subst crawl_loop.simps) (simp only: True if_True dq prod.case False if_False simp_thms)
      then show ?thesis using "1.IH"[OF True dq[symmetric] False] by simp
    qed
  qed
qed

lemma crawl_loop_counts:
  "loop_head start_url md mp wk net s \<Longrightarrow>
     pages_crawled (crawl_loop md mp wk net s)
     = int (length (dispatched (crawl_loop md mp wk net s)))"
proof (induction md mp wk net s rule: crawl_loop.induct)
  case (1 md mp wk net s)
  have here: "pages_crawled s = int (length (dispatched s))"
    using loop_head_inv[OF "1.prems"] by simp
  show ?case
  proof (cases "queue s \<noteq> [] \<and> pages_crawled s < mp")
    case False
    then have "crawl_loop md mp wk net s = s" by (subst crawl_loop.simps) (simp only: if_False)
    then show ?thesis using here by simp
  next
    case True
    obtain batch rest where dq: "dequeue_batch md (wk * 2) (queue s) [] = (batch, rest)"
      by (cases "dequeue_batch md (wk * 2) (queue s) []")
    show ?thesis
    proof (cases "batch = []")
      case empty: True
      have "crawl_loop md mp wk net s = dispatch batch rest s"
        by (subst crawl_loop.simps) (simp only: True if_True dq prod.case empty simp_thms)
      then show ?thesis using here empty by simp
    next
      case False
      let ?s' = "merge_results mp (gather net (length (dispatched s)) batch) (dispatch batch rest s)"
      have "crawl_loop md mp wk net s = crawl_loop md mp wk net ?s'"
        by (subst crawl_loop.simps) (simp only: True if_True dq prod.case False if_False simp_thms)
      moreover have "loop_head start_url md mp wk net ?s'"
        using "1.prems" True dq False by (intro loop_head.iteration) simp_all
      ultimately show ?thesis using "1.IH"[OF True dq[symmetric] False] by simp
    qed
  qed
qed

lemma crawl_async_raises:
  "isl (crawl_async start_url md mp wk net) \<longleftrightarrow> isl (normalize_url start_url) \<or> wk < 0"
  by (cases "normalize_url start_url") (simp_all add: crawl_async_def Let_def)

lemma crawl_async_completes:
  assumes seed: "normalize_url start_url = Inr seed" and wk: "0 \<le> wk"
  shows "\<exists>s. crawl_async start_url md mp wk net = Inr (pages_crawled s, all_words s) \<and>
           occurs start_url md mp wk net s \<and>
           (queue s = [] \<or> mp \<le> pages_crawled s \<or> wk = 0) \<and>
           pages_crawled s = int (length (dispatched s))"
proof -
  let ?s = "crawl_loop md mp wk net (initial_state seed)"
  have h: "loop_head start_url md mp wk net (initial_state seed)"
    by (rule loop_head.entry[OF seed])
  have "crawl_async start_url md mp wk net = Inr (pages_crawled ?s, all_words ?s)"
    using wk by (simp add: crawl_async_def seed Let_def)
  moreover have "occurs start_url md mp wk net ?s" by (rule crawl_loop_occurs[OF h])
  moreover have "queue ?s = [] \<or> mp \<le> pages_crawled ?s \<or> wk = 0"
    using crawl_loop_exit[of md mp wk net "initial_state seed"] wk by auto
  moreover have "pages_crawled ?s = int (length (dispatched ?s))" by (rule crawl_loop_counts[OF h])
  ultimately show ?thesis by blast
qed

subsection \<open>Upper case, links and the networks\<close>

lemma upper_char_ascii:
  assumes "is_ascii c"
  shows "\<exists>d. upper_char c = Some [d] \<and> lower_char d = lower_char c"
proof (cases "97 \<le> (of_char c :: nat) \<and> (of_char c :: nat) \<le> 122")
  case True
  let ?d = "char_of ((of_char c :: nat) - 32)"
  have u: "upper_char c = Some [?d]" using True by (simp add: upper_char_def Let_def)
  have "(of_char c :: nat) - 32 < 256" using True by arith
  then have "(of_char ?d :: nat) = of_char c - 32" by simp
  moreover have "65 \<le> (of_char c :: nat) - 32 \<and> (of_char c :: nat) - 32 \<le> 90" using True by arith
  ultimately have "(of_char (lower_char ?d) :: nat) = of_char c - 32 + 32"
    by (simp only: of_char_lower_char Let_def simp_thms if_True)
  then have "(of_char (lower_char ?d) :: nat) = of_char c" using True by simp
  moreover have "(of_char (lower_char c) :: nat) = of_char c"
    using True by (simp add: of_char_lower_char Let_def)
  ultimately have "lower_char ?d = lower_char c" by (metis char_of_char)
  with u show ?thesis by blast
next
  case False
  then have "upper_char c = Some [c]" using assms by (auto simp: upper_char_def Let_def is_ascii_def)
  then show ?thesis by blast
qed

lemma upper_ascii:
  "list_all is_ascii s \<Longrightarrow> \<exists>t. upper s = Some t \<and> lower t = lower s"
proof (induction s)
  case Nil
  then show ?case by (simp add: lower_def)
next
  case (Cons c s)
  then obtain t where t: "upper s = Some t" "lower t = lower s" by auto
  from Cons.prems obtain d where d: "upper_char c = Some [d]" "lower_char d = lower_char c"
    using upper_char_ascii[of c] by auto
  have "upper (c # s) = Some (d # t)" using t(1) d(1) by simp
  moreover have "lower (d # t) = lower (c # s)" using t(2) d(2) by (simp add: lower_def)
  ultimately show ?case by blast
qed

lemma add_link_idem: "add_link mp l (add_link mp l s) = add_link mp l s"
  by (simp add: add_link_def)

lemma add_link_queue:
  "queue (add_link mp l s) = queue s \<or> queue (add_link mp l s) = queue s @ [(l, 0)]"
  by (simp add: add_link_def)

lemma add_link_changed:
  "add_link mp l s \<noteq> s \<Longrightarrow>
     l |\<in>| visited (add_link mp l s) \<and> queue (add_link mp l s) = queue s @ [(l, 0)]"
  by (auto simp: add_link_def split: if_splits)

lemma crawl_async_occurs:
  assumes "crawl_async start_url md mp wk net = Inr (n, corpus)"
  shows "\<exists>s. occurs start_url md mp wk net s \<and> n = pages_crawled s \<and> corpus = all_words s"
proof -
  from assms obtain seed where seed: "normalize_url start_url = Inr seed"
    by (cases "normalize_url start_url") (simp_all add: crawl_async_def)
  let ?s = "crawl_loop md mp wk net (initial_state seed)"
  have "occurs start_url md mp wk net ?s" by (intro crawl_loop_occurs loop_head.entry seed)
  moreover from assms have "n = pages_crawled ?s" "corpus = all_words ?s"
    by (auto simp: crawl_async_def seed Let_def split: if_splits)
  ultimately show ?thesis by blast
qed

lemma crawl_url_failed: "fetch_failed out \<Longrightarrow> crawl_url url out = Inr (url, {||}, [])"
  by (cases out) (auto simp: fetch_failed_def crawl_url_def)

lemma seed_normalized: "normalize_url ''http://a/'' = Inr ''http://a/''"
  by code_simp

lemma after_first_batch_loop_head:
  "0 < workers \<Longrightarrow> loop_head ''http://a/'' 3 10 workers two_page_network after_first_batch"
proof -
  assume w: "0 < workers"
  let ?s0 = "initial_state ''http://a/''"
  have d: "dequeue_batch 3 (workers * 2) (queue ?s0) [] = ([(''http://a/'', 0)], [])"
    using w by (simp add: initial_state_def)
  have "loop_head ''http://a/'' 3 10 workers two_page_network
          (merge_results 10 (gather two_page_network (length (dispatched ?s0)) [(''http://a/'', 0)])
             (dispatch [(''http://a/'', 0)] [] ?s0))"
    by (rule loop_head.iteration[OF loop_head.entry[OF seed_normalized] _ _ d])
      (simp_all add: initial_state_def)
  moreover have "length (dispatched ?s0) = 0" by (simp add: initial_state_def)
  ultimately show ?thesis by (simp add: after_first_batch_def)
qed

lemma after_first_batch_value:
  "after_first_batch =
     \<lparr>visited = {|''http://a/b'', ''http://a/''|}, queue = [(''http://a/b'', 0)],
      all_words = {|''hello'', ''world'', ''foo'', ''bar''|}, pages_crawled = 1,
      dispatched = [''http://a/'']\<rparr>"
  by code_simp

section \<open>Claims on word extraction and normalization\<close>

text \<open>
  C7. Word extraction lower-cases the text and returns the set of the maximal runs of
  ASCII letters of the result: digits, hyphens and apostrophes end a run, so a hyphenated
  word gives two tokens, and a word that occurs twice is one element. On
  \<open>Hello, World! foo-bar 123\<close> the result is exactly \<open>hello\<close>, \<open>world\<close>, \<open>foo\<close>, \<open>bar\<close>.
\<close>

theorem extract_words_maximal_runs:
  "(w |\<in>| extract_words text \<longleftrightarrow> maximal_run (lower text) w) \<and>
   extract_words ''Hello, World! foo-bar 123'' = {|''hello'', ''world'', ''foo'', ''bar''|}"
proof
  show "w |\<in>| extract_words text \<longleftrightarrow> maximal_run (lower text) w"
    by (rule extract_words_iff)
  show "extract_words ''Hello, World! foo-bar 123'' = {|''hello'', ''world'', ''foo'', ''bar''|}"
    by code_simp
qed

theorem extract_words_maximal_runs_witness:
  "maximal_run (lower ''Foo-bar foo'') ''foo'' \<and> \<not> maximal_run (lower ''Foo-bar foo'') ''fo''"
proof -
  have "''foo'' |\<in>| extract_words ''Foo-bar foo''" by code_simp
  moreover have "''fo'' |\<notin>| extract_words ''Foo-bar foo''" by code_simp
  ultimately show ?thesis
    using extract_words_maximal_runs[of "''foo''" "''Foo-bar foo''"]
      extract_words_maximal_runs[of "''fo''" "''Foo-bar foo''"]
    by simp
qed




section \<open>Claims on the crawl engine\<close>

text \<open>
  C1, as stated: for every configuration the Visited Set never exceeds the page budget.
  With a page budget of 0 it does from the start: the seed is entered into the Visited
  Set before the loop, whatever the budget.
\<close>

theorem visited_exceeds_zero_budget:
  "occurs ''http://a/'' 3 0 5 dead_network (initial_state ''http://a/'') \<and>
   \<not> int (fcard (visited (initial_state ''http://a/''))) \<le> 0"
proof
  show "occurs ''http://a/'' 3 0 5 dead_network (initial_state ''http://a/'')"
    by (intro occurs.at_loop_head loop_head.entry seed_normalized)
  show "\<not> int (fcard (visited (initial_state ''http://a/''))) \<le> 0"
    by (simp add: initial_state_def fcard_finsert_disjoint fcard_fempty)
qed

text \<open>
  C1, amended: for every configuration and every network, at no point of the crawl does
  the Visited Set hold more addresses than the page budget, or than 1 when the budget is
  below 1; the pages-crawled count never exceeds the page budget, or 0 when the budget is
  negative, and neither does the count that \<open>crawl_async\<close> returns. For a budget of at
  least 1 both bounds are the budget.
\<close>

theorem budget_bounds:
  "(occurs start_url max_depth max_pages workers net s \<longrightarrow>
      int (fcard (visited s)) \<le> max 1 max_pages \<and> pages_crawled s \<le> max 0 max_pages) \<and>
   (crawl_async start_url max_depth max_pages workers net = Inr (n, corpus) \<longrightarrow> n \<le> max 0 max_pages)"
proof (intro conjI impI)
  assume "occurs start_url max_depth max_pages workers net s"
  from occurs_inv[OF this] show "int (fcard (visited s)) \<le> max 1 max_pages"
    and "pages_crawled s \<le> max 0 max_pages"
    by (simp_all add: counted_inv_def frontier_inv_def)
next
  assume "crawl_async start_url max_depth max_pages workers net = Inr (n, corpus)"
  from crawl_async_occurs[OF this] obtain s' where
    "occurs start_url max_depth max_pages workers net s'" "n = pages_crawled s'" by blast
  then show "n \<le> max 0 max_pages" using occurs_inv by (auto simp: counted_inv_def)
qed

theorem budget_bounds_witness:
  "occurs ''http://a/'' 3 1 5 two_page_network
     (crawl_loop 3 1 5 two_page_network (initial_state ''http://a/'')) \<and>
   int (fcard (visited (crawl_loop 3 1 5 two_page_network (initial_state ''http://a/'')))) \<le> 1 \<and>
   crawl_async ''http://a/'' 3 1 5 two_page_network
     = Inr (1, {|''hello'', ''world'', ''foo'', ''bar''|}) \<and>
   (1::int) \<le> max 0 1"
proof -
  let ?s = "crawl_loop 3 1 5 two_page_network (initial_state ''http://a/'')"
  have o: "occurs ''http://a/'' 3 1 5 two_page_network ?s"
    by (intro crawl_loop_occurs loop_head.entry seed_normalized)
  have r: "crawl_async ''http://a/'' 3 1 5 two_page_network
             = Inr (1, {|''hello'', ''world'', ''foo'', ''bar''|})"
    by code_simp
  show ?thesis
    using o r budget_bounds[of "''http://a/''" 3 1 5 two_page_network ?s 1
        "{|''hello'', ''world'', ''foo'', ''bar''|}"]
    by simp
qed

text \<open>
  C2, as stated: a fetch that ends in a transport or HTTP failure does not contribute to
  the pages-crawled count. On a network where every request fails, the crawl of a seed
  returns the count 1.
\<close>

theorem failed_fetch_is_counted:
  "crawl_async ''http://a/'' 3 10 5 dead_network = Inr (1, {||})"
  by code_simp

text \<open>
  C2, amended: the counter is incremented exactly once for each result that is a tuple
  and for no other result, and every result of \<open>crawl_url\<close> is a tuple, whatever the
  outcome of the fetch. A fetch that fails yields the tuple with two empty sets: merging
  it leaves the Word Corpus, the Visited Set and the queue as they are and adds 1 to the
  count, as does a 2xx response that is not HTML. Each time the loop test is evaluated,
  the count is the number of fetches dispatched so far.
\<close>

theorem every_page_result_counted:
  "pages_crawled (merge_results max_pages results s)
     = pages_crawled s + int (length (filter is_tuple results)) \<and>
   is_tuple (task_result (crawl_url url out)) \<and>
   (fetch_failed out \<longrightarrow>
      crawl_url url out = Inr (url, {||}, []) \<and>
      all_words (merge_result max_pages (task_result (crawl_url url out)) s) = all_words s \<and>
      visited (merge_result max_pages (task_result (crawl_url url out)) s) = visited s \<and>
      queue (merge_result max_pages (task_result (crawl_url url out)) s) = queue s \<and>
      pages_crawled (merge_result max_pages (task_result (crawl_url url out)) s)
        = pages_crawled s + 1) \<and>
   (is_success status \<and> \<not> contains ''text/html'' ctype \<longrightarrow>
      crawl_url url (Response status ctype content) = Inr (url, {||}, [])) \<and>
   (loop_head start_url max_depth max_pages workers net s' \<longrightarrow>
      pages_crawled s' = int (length (dispatched s')))"
proof (intro conjI impI)
  show "pages_crawled (merge_results max_pages results s)
     = pages_crawled s + int (length (filter is_tuple results))"
    by (rule merge_results_pages)
  show "is_tuple (task_result (crawl_url url out))" by (rule task_result_crawl_url)
  show "crawl_url url (Response status ctype content) = Inr (url, {||}, [])"
    if "is_success status \<and> \<not> contains ''text/html'' ctype"
    using that by (simp add: crawl_url_def)
  show "pages_crawled s' = int (length (dispatched s'))"
    if "loop_head start_url max_depth max_pages workers net s'"
    using loop_head_inv[OF that] by simp
next
  assume "fetch_failed out"
  then have t: "crawl_url url out = Inr (url, {||}, [])" by (rule crawl_url_failed)
  show "crawl_url url out = Inr (url, {||}, [])" by (rule t)
  show "all_words (merge_result max_pages (task_result (crawl_url url out)) s) = all_words s"
    "visited (merge_result max_pages (task_result (crawl_url url out)) s) = visited s"
    "queue (merge_result max_pages (task_result (crawl_url url out)) s) = queue s"
    "pages_crawled (merge_result max_pages (task_result (crawl_url url out)) s)
       = pages_crawled s + 1"
    unfolding t by simp_all
qed

theorem every_page_result_counted_witness:
  "fetch_failed Get_Raises \<and>
   crawl_url ''http://a/'' Get_Raises = Inr (''http://a/'', {||}, []) \<and>
   pages_crawled (merge_result 10 (task_result (crawl_url ''http://a/'' Get_Raises))
      (dispatch [(''http://a/'', 0)] [] (initial_state ''http://a/''))) = 1 \<and>
   is_success 200 \<and> \<not> contains ''text/html'' ''text/plain'' \<and>
   crawl_url ''http://a/'' (Response 200 ''text/plain'' Unparsable)
     = Inr (''http://a/'', {||}, []) \<and>
   loop_head ''http://a/'' 3 10 5 dead_network (initial_state ''http://a/'') \<and>
   pages_crawled (initial_state ''http://a/'') = int (length (dispatched (initial_state ''http://a/'')))"
proof -
  let ?s = "dispatch [(''http://a/'', 0)] [] (initial_state ''http://a/'')"
  have f: "fetch_failed Get_Raises" by (simp add: fetch_failed_def)
  have h: "loop_head ''http://a/'' 3 10 5 dead_network (initial_state ''http://a/'')"
    by (rule loop_head.entry[OF seed_normalized])
  have p: "pages_crawled ?s = 0" by (simp add: initial_state_def)
  have ok: "is_success 200" by (simp add: is_success_def)
  have plain: "\<not> contains ''text/html'' ''text/plain''" by simp
  note T = every_page_result_counted[of 10 "[]" ?s "''http://a/''" Get_Raises 200 "''text/plain''"
      Unparsable "''http://a/''" 3 5 dead_network "initial_state ''http://a/''"]
  from T f have t: "crawl_url ''http://a/'' Get_Raises = Inr (''http://a/'', {||}, [])"
    and c: "pages_crawled (merge_result 10 (task_result (crawl_url ''http://a/'' Get_Raises)) ?s)
              = pages_crawled ?s + 1"
    by blast+
  from c p
  have c1: "pages_crawled (merge_result 10 (task_result (crawl_url ''http://a/'' Get_Raises)) ?s) = 1"
    by simp
  from T ok plain
  have n: "crawl_url ''http://a/'' (Response 200 ''text/plain'' Unparsable)
             = Inr (''http://a/'', {||}, [])"
    by blast
  from T h
  have e: "pages_crawled (initial_state ''http://a/'') = int (length (dispatched (initial_state ''http://a/'')))"
    by blast
  from f t c1 ok plain n h e show ?thesis by (intro conjI)
qed

text \<open>
  C3. For every address and every outcome of the fetch, \<open>crawl_url\<close> returns a tuple for
  that address and raises nothing: when its body raises, and when \<open>client.get\<close> raises,
  the status is not a 2xx code or the body cannot be parsed, it returns the tuple with the
  empty word set and the empty link set. So every result that \<open>gather\<close> hands to the
  orchestrator is a tuple. No page aborts the crawl: \<open>crawl_async\<close> raises exactly when
  the start locator cannot be normalized or the worker count is negative, whatever the
  network; otherwise it returns the count and the corpus of a state in which the loop has
  come to its end, with the queue empty, the page budget reached or no worker at all, and
  in which every address that was dispatched has been counted.
\<close>

theorem crawl_url_never_raises:
  "(\<exists>words links. crawl_url url out = Inr (url, words, links)) \<and>
   (crawl_body url out = Inl e \<longrightarrow> crawl_url url out = Inr (url, {||}, [])) \<and>
   (fetch_failed out \<longrightarrow> crawl_url url out = Inr (url, {||}, [])) \<and>
   list_all is_tuple (gather net k batch) \<and>
   (isl (crawl_async start_url max_depth max_pages workers net)
      \<longleftrightarrow> isl (normalize_url start_url) \<or> workers < 0) \<and>
   (normalize_url start_url = Inr seed \<and> 0 \<le> workers \<longrightarrow>
      (\<exists>s. crawl_async start_url max_depth max_pages workers net
                = Inr (pages_crawled s, all_words s) \<and>
           occurs start_url max_depth max_pages workers net s \<and>
           (queue s = [] \<or> max_pages \<le> pages_crawled s \<or> workers = 0) \<and>
           pages_crawled s = int (length (dispatched s))))"
proof (intro conjI impI)
  show "\<exists>words links. crawl_url url out = Inr (url, words, links)" by (rule crawl_url_tuple)
  show "crawl_url url out = Inr (url, {||}, [])" if "crawl_body url out = Inl e"
    using that by (rule crawl_url_caught)
  show "crawl_url url out = Inr (url, {||}, [])" if "fetch_failed out"
    using that by (rule crawl_url_failed)
  have "filter is_tuple (gather net k batch) = gather net k batch" by (rule gather_all_tuples)
  then show "list_all is_tuple (gather net k batch)" by (simp add: filter_id_conv list_all_iff)
  show "isl (crawl_async start_url max_depth max_pages workers net)
      \<longleftrightarrow> isl (normalize_url start_url) \<or> workers < 0"
    by (rule crawl_async_raises)
next
  assume "normalize_url start_url = Inr seed \<and> 0 \<le> workers"
  then have "normalize_url start_url = Inr seed" "0 \<le> workers" by simp_all
  then show "\<exists>s. crawl_async start_url max_depth max_pages workers net
                = Inr (pages_crawled s, all_words s) \<and>
           occurs start_url max_depth max_pages workers net s \<and>
           (queue s = [] \<or> max_pages \<le> pages_crawled s \<or> workers = 0) \<and>
           pages_crawled s = int (length (dispatched s))"
    by (rule crawl_async_completes)
qed

theorem crawl_url_never_raises_witness:
  "crawl_body ''http://a/c'' (Response 200 ''text/html'' Unparsable) = Inl ParserError \<and>
   crawl_url ''http://a/c'' (Response 200 ''text/html'' Unparsable)
     = Inr (''http://a/c'', {||}, []) \<and>
   fetch_failed (Response 404 ''text/html'' (Parsed ''Not Found'' [])) \<and>
   crawl_url ''http://a/b'' (Response 404 ''text/html'' (Parsed ''Not Found'' []))
     = Inr (''http://a/b'', {||}, []) \<and>
   normalize_url ''http://a/'' = Inr ''http://a/'' \<and> (0::int) \<le> 5 \<and>
   crawl_async ''http://a/'' 3 10 5 faulty_network = Inr (4, {|''alpha'', ''delta''|}) \<and>
   (\<exists>s. crawl_async ''http://a/'' 3 10 5 faulty_network = Inr (pages_crawled s, all_words s) \<and>
        occurs ''http://a/'' 3 10 5 faulty_network s \<and> queue s = [] \<and>
        length (dispatched s) = 4) \<and>
   \<not> isl (crawl_async ''http://a/'' 3 10 5 faulty_network) \<and>
   isl (crawl_async ''http://[a/'' 3 10 5 faulty_network)"
proof -
  let ?c = "Response 200 ''text/html'' Unparsable"
  let ?b = "Response 404 ''text/html'' (Parsed ''Not Found'' [])"
  have bad: "normalize_url ''http://[a/'' = Inl ValueError" by code_simp
  have body: "crawl_body ''http://a/c'' ?c = Inl ParserError"
    by (simp add: is_success_def)
  have f: "fetch_failed ?b" by (simp add: fetch_failed_def is_success_def)
  have w: "(0::int) \<le> 5" by simp
  have r: "crawl_async ''http://a/'' 3 10 5 faulty_network = Inr (4, {|''alpha'', ''delta''|})"
    by code_simp
  note C = crawl_url_never_raises[of "''http://a/c''" ?c ParserError faulty_network 0 "[]"
      "''http://a/''" 3 10 5 "''http://a/''"]
  note B = crawl_url_never_raises[of "''http://a/b''" ?b ValueError faulty_network 0 "[]"
      "''http://[a/''" 3 10 5 "''http://a/''"]
  from C body have c: "crawl_url ''http://a/c'' ?c = Inr (''http://a/c'', {||}, [])" by blast
  from B f have b: "crawl_url ''http://a/b'' ?b = Inr (''http://a/b'', {||}, [])" by blast
  from C have "isl (crawl_async ''http://a/'' 3 10 5 faulty_network)
      \<longleftrightarrow> isl (normalize_url ''http://a/'') \<or> (5::int) < 0" by blast
  then have ok: "\<not> isl (crawl_async ''http://a/'' 3 10 5 faulty_network)"
    by (simp add: seed_normalized)
  from B have "isl (crawl_async ''http://[a/'' 3 10 5 faulty_network)
      \<longleftrightarrow> isl (normalize_url ''http://[a/'') \<or> (5::int) < 0" by blast
  then have raises: "isl (crawl_async ''http://[a/'' 3 10 5 faulty_network)"
    by (simp add: bad)
  from C have "normalize_url ''http://a/'' = Inr ''http://a/'' \<and> (0::int) \<le> 5 \<longrightarrow>
      (\<exists>s. crawl_async ''http://a/'' 3 10 5 faulty_network
                = Inr (pages_crawled s, all_words s) \<and>
           occurs ''http://a/'' 3 10 5 faulty_network s \<and>
           (queue s = [] \<or> 10 \<le> pages_crawled s \<or> (5::int) = 0) \<and>
           pages_crawled s = int (length (dispatched s)))"
    by (elim conjE)
  from mp[OF this conjI[OF seed_normalized w]] obtain s where
    fin: "crawl_async ''http://a/'' 3 10 5 faulty_network = Inr (pages_crawled s, all_words s)"
    and o: "occurs ''http://a/'' 3 10 5 faulty_network s"
    and ex: "queue s = [] \<or> 10 \<le> pages_crawled s \<or> (5::int) = 0"
    and cnt: "pages_crawled s = int (length (dispatched s))"
    by (elim exE conjE)
  from fin r have four: "pages_crawled s = 4" by simp
  with ex have q: "queue s = []" by simp
  from four cnt have d: "length (dispatched s) = 4" by simp
  from fin o q d
  have e: "\<exists>s. crawl_async ''http://a/'' 3 10 5 faulty_network = Inr (pages_crawled s, all_words s) \<and>
        occurs ''http://a/'' 3 10 5 faulty_network s \<and> queue s = [] \<and>
        length (dispatched s) = 4"
    by blast
  from body c f b seed_normalized w r e ok raises show ?thesis by (intro conjI)
qed

text \<open>
  C4. Link discovery leaves the queue as it is or appends the link at depth 0, whatever
  the depth of the page it was found on, and at every point of a crawl every entry of the
  queue has depth 0. So when the maximum depth is at least 0, dequeuing a batch discards
  nothing: the batch followed by the remaining queue is the queue before.
\<close>

theorem links_enqueued_at_depth_zero:
  "(queue (add_link max_pages link s) = queue s \<or>
    queue (add_link max_pages link s) = queue s @ [(link, 0)]) \<and>
   (occurs start_url max_depth max_pages workers net s' \<longrightarrow>
      (\<forall>e\<in>set (queue s'). snd e = 0) \<and>
      (0 \<le> max_depth \<longrightarrow>
         dequeue_batch max_depth (workers * 2) (queue s') [] = (batch, rest) \<longrightarrow>
         batch @ rest = queue s'))"
proof (intro conjI impI)
  show "queue (add_link max_pages link s) = queue s \<or>
    queue (add_link max_pages link s) = queue s @ [(link, 0)]"
    by (rule add_link_queue)
next
  assume "occurs start_url max_depth max_pages workers net s'"
  from occurs_inv[OF this] show z: "\<forall>e\<in>set (queue s'). snd e = 0"
    by (simp add: counted_inv_def frontier_inv_def)
  assume "0 \<le> max_depth" and d: "dequeue_batch max_depth (workers * 2) (queue s') [] = (batch, rest)"
  with z have "\<forall>e\<in>set (queue s'). snd e \<le> max_depth" by simp
  from dequeue_batch_no_discard[OF d this] show "batch @ rest = queue s'" .
qed

theorem links_enqueued_at_depth_zero_witness:
  "occurs ''http://a/'' 3 10 5 two_page_network after_first_batch \<and>
   queue after_first_batch = [(''http://a/b'', 0)] \<and>
   (0::int) \<le> 3 \<and>
   dequeue_batch 3 (5 * 2) (queue after_first_batch) [] = ([(''http://a/b'', 0)], []) \<and>
   [(''http://a/b'', 0)] @ [] = queue after_first_batch \<and>
   snd (''http://a/b'', 0::int) = 0"
proof -
  have o: "occurs ''http://a/'' 3 10 5 two_page_network after_first_batch"
    by (intro occurs.at_loop_head after_first_batch_loop_head) simp
  have q: "queue after_first_batch = [(''http://a/b'', 0)]" by (simp add: after_first_batch_value)
  have d: "dequeue_batch 3 (5 * 2) (queue after_first_batch) [] = ([(''http://a/b'', 0)], [])"
    unfolding q by simp
  have z: "(0::int) \<le> 3" by simp
  note T = links_enqueued_at_depth_zero[of 10 "''http://a/b''" "initial_state ''http://a/''"
        "''http://a/''" 3 5 two_page_network after_first_batch "[(''http://a/b'', 0)]" "[]"]
  from T o have all0: "\<forall>e\<in>set (queue after_first_batch). snd e = 0" by blast
  from T o z d have whole: "[(''http://a/b'', 0)] @ [] = queue after_first_batch" by blast
  have "(''http://a/b'', 0) \<in> set (queue after_first_batch)" unfolding q by simp
  with all0 have s: "snd (''http://a/b'', 0::int) = 0" by blast
  from o q z d whole s show ?thesis by (intro conjI)
qed

text \<open>
  C5. Dequeuing a batch with \<open>maxCount = 2 * workers\<close> returns the first \<open>maxCount\<close>
  entries of the queue whose depth does not exceed the maximum depth, in queue order. It
  removes an initial segment of the queue, returns the entries of that segment within the
  maximum depth and discards the others. On the empty queue it returns the empty batch.
  Over a whole crawl no address is dispatched twice, so no entry is returned twice.
\<close>

theorem dequeue_batch_fifo_once:
  "fst (dequeue_batch max_depth (workers * 2) q [])
     = take (nat (workers * 2)) (filter (within_depth max_depth) q) \<and>
   (\<exists>popped. q = popped @ snd (dequeue_batch max_depth (workers * 2) q []) \<and>
      fst (dequeue_batch max_depth (workers * 2) q []) = filter (within_depth max_depth) popped) \<and>
   dequeue_batch max_depth (workers * 2) [] [] = ([], []) \<and>
   (occurs start_url max_depth max_pages workers net s \<longrightarrow> distinct (dispatched s))"
proof (intro conjI impI)
  show "fst (dequeue_batch max_depth (workers * 2) q [])
     = take (nat (workers * 2)) (filter (within_depth max_depth) q)"
    using dequeue_batch_fifo[of max_depth "workers * 2" q "[]"] by simp
  obtain batch rest where d: "dequeue_batch max_depth (workers * 2) q [] = (batch, rest)"
    by (cases "dequeue_batch max_depth (workers * 2) q []")
  from dequeue_batch_split[OF d] d
  show "\<exists>popped. q = popped @ snd (dequeue_batch max_depth (workers * 2) q []) \<and>
      fst (dequeue_batch max_depth (workers * 2) q []) = filter (within_depth max_depth) popped"
    by (metis fst_conv snd_conv)
  show "dequeue_batch max_depth (workers * 2) [] [] = ([], [])" by simp
next
  assume "occurs start_url max_depth max_pages workers net s"
  from occurs_inv[OF this] show "distinct (dispatched s)"
    by (simp add: counted_inv_def frontier_inv_def)
qed

theorem dequeue_batch_fifo_once_witness:
  "fst (dequeue_batch 3 (1 * 2) [(''a'', 0), (''b'', 5), (''c'', 1), (''d'', 0)] [])
     = [(''a'', 0), (''c'', 1)] \<and>
   snd (dequeue_batch 3 (1 * 2) [(''a'', 0), (''b'', 5), (''c'', 1), (''d'', 0)] []) = [(''d'', 0)] \<and>
   take (nat (1 * 2)) (filter (within_depth 3) [(''a'', 0), (''b'', 5), (''c'', 1), (''d'', 0)])
     = [(''a'', 0), (''c'', 1)] \<and>
   occurs ''http://a/'' 3 10 1 two_page_network after_first_batch \<and>
   distinct (dispatched after_first_batch)"
proof -
  let ?q = "[(''a'', 0), (''b'', 5), (''c'', 1), (''d'', 0)] :: (address \<times> int) list"
  have a: "dequeue_batch 3 (1 * 2) ?q [] = ([(''a'', 0), (''c'', 1)], [(''d'', 0)])" by simp
  have o: "occurs ''http://a/'' 3 10 1 two_page_network after_first_batch"
    by (intro occurs.at_loop_head after_first_batch_loop_head) simp
  note T = dequeue_batch_fifo_once[of 3 1 ?q "''http://a/''" 10 two_page_network after_first_batch]
  from T have "fst (dequeue_batch 3 (1 * 2) ?q []) = take (nat (1 * 2)) (filter (within_depth 3) ?q)"
    by (rule conjunct1)
  then have t: "take (nat (1 * 2)) (filter (within_depth 3) ?q) = [(''a'', 0), (''c'', 1)]"
    unfolding a fst_conv by (rule sym)
  from T o have d: "distinct (dispatched after_first_batch)" by blast
  have f: "fst (dequeue_batch 3 (1 * 2) ?q []) = [(''a'', 0), (''c'', 1)]"
    and s: "snd (dequeue_batch 3 (1 * 2) ?q []) = [(''d'', 0)]"
    unfolding a by simp_all
  from f s t o d show ?thesis by (intro conjI)
qed

text \<open>
  C6. A link that is already visited is not entered again and changes nothing. A link
  that is enqueued is visited at once, before any fetch, so a second occurrence of the
  same link changes nothing. At every point of a crawl the addresses dispatched so far
  and the addresses in the queue are pairwise different and all in the Visited Set: no
  address has more than one frontier entry.
\<close>

theorem address_visited_once:
  "(link |\<in>| visited s \<longrightarrow> add_link max_pages link s = s) \<and>
   (add_link max_pages link s \<noteq> s \<longrightarrow>
      link |\<in>| visited (add_link max_pages link s) \<and>
      queue (add_link max_pages link s) = queue s @ [(link, 0)]) \<and>
   add_link max_pages link (add_link max_pages link s) = add_link max_pages link s \<and>
   (occurs start_url max_depth max_pages workers net s' \<longrightarrow>
      distinct (dispatched s' @ map fst (queue s')) \<and>
      set (dispatched s' @ map fst (queue s')) \<subseteq> fset (visited s'))"
proof (intro conjI impI)
  show "add_link max_pages link s = s" if "link |\<in>| visited s"
    using that by (simp add: add_link_def)
  show "link |\<in>| visited (add_link max_pages link s)"
    "queue (add_link max_pages link s) = queue s @ [(link, 0)]"
    if "add_link max_pages link s \<noteq> s"
    using add_link_changed[OF that] by simp_all
  show "add_link max_pages link (add_link max_pages link s) = add_link max_pages link s"
    by (rule add_link_idem)
next
  assume "occurs start_url max_depth max_pages workers net s'"
  from occurs_inv[OF this]
  show "distinct (dispatched s' @ map fst (queue s'))"
    and "set (dispatched s' @ map fst (queue s')) \<subseteq> fset (visited s')"
    by (simp_all add: counted_inv_def frontier_inv_def)
qed

theorem address_visited_once_witness:
  "add_link 10 ''http://a/b'' (initial_state ''http://a/'') \<noteq> initial_state ''http://a/'' \<and>
   queue (merge_links 10 [''http://a/b'', ''http://a/b''] (initial_state ''http://a/''))
     = [(''http://a/'', 0), (''http://a/b'', 0)] \<and>
   ''http://a/'' |\<in>| visited (initial_state ''http://a/'') \<and>
   add_link 10 ''http://a/'' (initial_state ''http://a/'') = initial_state ''http://a/'' \<and>
   occurs ''http://a/'' 3 10 5 two_page_network after_first_batch \<and>
   distinct (dispatched after_first_batch @ map fst (queue after_first_batch))"
proof -
  let ?s0 = "initial_state ''http://a/''"
  have n: "add_link 10 ''http://a/b'' ?s0 \<noteq> ?s0"
  proof
    assume "add_link 10 ''http://a/b'' ?s0 = ?s0"
    then have "queue (add_link 10 ''http://a/b'' ?s0) = queue ?s0" by simp
    then show False
      by (simp add: add_link_def initial_state_def fcard_finsert_disjoint fcard_fempty)
  qed
  have v: "''http://a/'' |\<in>| visited ?s0" by (simp add: initial_state_def)
  have o: "occurs ''http://a/'' 3 10 5 two_page_network after_first_batch"
    by (intro occurs.at_loop_head after_first_batch_loop_head) simp
  have q: "queue (add_link 10 ''http://a/b'' ?s0) = [(''http://a/'', 0), (''http://a/b'', 0)]"
    using n address_visited_once[of "''http://a/b''" ?s0 10] by (simp add: initial_state_def)
  have m: "merge_links 10 [''http://a/b'', ''http://a/b''] ?s0 = add_link 10 ''http://a/b'' ?s0"
    using address_visited_once[of "''http://a/b''" ?s0 10] by simp
  show ?thesis
    using n v o q m address_visited_once[of "''http://a/''" ?s0 10 "''http://a/''" 3 5
        two_page_network after_first_batch]
    by simp
qed

text \<open>
  C10, as stated: \<open>extract_words\<close> of a string equals \<open>extract_words\<close> of the string
  upper-cased. The upper-case form of the sharp s is \<open>SS\<close>: the sharp s contributes no
  word, \<open>SS\<close> contributes the word \<open>ss\<close>.
\<close>

theorem upper_changes_words:
  "upper [CHR 0xDF] = Some ''SS'' \<and> extract_words ''SS'' \<noteq> extract_words [CHR 0xDF]"
  by code_simp

text \<open>
  C10, amended: \<open>extract_words\<close> gives the same set on two strings that are equal once
  lower-cased, which holds of an ASCII string and its upper-case form. Every element of
  the set is a non-empty string of the letters \<open>a\<close> to \<open>z\<close>, and so is every word of the
  corpus that \<open>crawl_async\<close> returns.
\<close>

theorem extract_words_case_insensitive:
  "(lower s = lower t \<longrightarrow> extract_words s = extract_words t) \<and>
   (list_all is_ascii s \<longrightarrow> (\<exists>t. upper s = Some t \<and> extract_words t = extract_words s)) \<and>
   (w |\<in>| extract_words s \<longrightarrow> w \<noteq> [] \<and> list_all is_lower_az w) \<and>
   (crawl_async start_url max_depth max_pages workers net = Inr (n, corpus) \<longrightarrow>
      w |\<in>| corpus \<longrightarrow> w \<noteq> [] \<and> list_all is_lower_az w)"
proof (intro conjI impI)
  show "extract_words s = extract_words t" if "lower s = lower t"
    using that by (simp add: extract_words_def)
  show "\<exists>t. upper s = Some t \<and> extract_words t = extract_words s" if "list_all is_ascii s"
    using upper_ascii[OF that] by (auto simp: extract_words_def)
  show "w \<noteq> []" "list_all is_lower_az w" if "w |\<in>| extract_words s"
    using extract_words_tokens[OF that] by (simp_all add: is_token_def)
next
  assume "crawl_async start_url max_depth max_pages workers net = Inr (n, corpus)"
    and w: "w |\<in>| corpus"
  from crawl_async_occurs[OF this(1)] obtain s' where
    "occurs start_url max_depth max_pages workers net s'" "corpus = all_words s'" by blast
  with occurs_inv w have "is_token w" by (auto simp: counted_inv_def)
  then show "w \<noteq> []" "list_all is_lower_az w" by (simp_all add: is_token_def)
qed

theorem extract_words_case_insensitive_witness:
  "lower ''Foo-BAR'' = lower ''fOO-bar'' \<and> extract_words ''Foo-BAR'' = extract_words ''fOO-bar'' \<and>
   list_all is_ascii ''Foo-BAR'' \<and> upper ''Foo-BAR'' = Some ''FOO-BAR'' \<and>
   extract_words ''FOO-BAR'' = extract_words ''Foo-BAR'' \<and>
   ''foo'' |\<in>| extract_words ''Foo-BAR'' \<and> list_all is_lower_az ''foo'' \<and>
   crawl_async ''http://a/'' 3 10 5 two_page_network
     = Inr (2, {|''hello'', ''world'', ''foo'', ''bar''|}) \<and>
   ''world'' |\<in>| {|''hello'', ''world'', ''foo'', ''bar''|} \<and> list_all is_lower_az ''world''"
proof -
  have l: "lower ''Foo-BAR'' = lower ''fOO-bar''" by code_simp
  have a: "list_all is_ascii ''Foo-BAR''" by code_simp
  have u: "upper ''Foo-BAR'' = Some ''FOO-BAR''" by code_simp
  have m: "''foo'' |\<in>| extract_words ''Foo-BAR''" by code_simp
  have c: "crawl_async ''http://a/'' 3 10 5 two_page_network
             = Inr (2, {|''hello'', ''world'', ''foo'', ''bar''|})" by code_simp
  have w: "''world'' |\<in>| {|''hello'', ''world'', ''foo'', ''bar''|}" by simp
  note T = extract_words_case_insensitive[of "''Foo-BAR''" "''fOO-bar''" _ "''http://a/''" 3 10 5
      two_page_network 2 "{|''hello'', ''world'', ''foo'', ''bar''|}"]
  from T[of "''foo''"] l have e1: "extract_words ''Foo-BAR'' = extract_words ''fOO-bar''" by blast
  from T[of "''foo''"] a obtain t where "upper ''Foo-BAR'' = Some t"
    and t: "extract_words t = extract_words ''Foo-BAR''" by blast
  with u have "t = ''FOO-BAR''" by (simp only: option.inject)
  with t have e2: "extract_words ''FOO-BAR'' = extract_words ''Foo-BAR''" by (simp only:)
  from T[of "''foo''"] m have e3: "list_all is_lower_az ''foo''" by blast
  from T[of "''world''"] c w have e4: "list_all is_lower_az ''world''" by blast
  from l e1 a u e2 m e3 c w e4 show ?thesis by (intro conjI)
qed

end
